theory Spec2Isabelle
  imports Complex_Main
begin

section \<open>The CSV parser of the stock dashboard (\<^verbatim>\<open>parseCsv\<close> in src/App.js)\<close>

text \<open>
  The dashboard fetches a published sheet as CSV text and turns it into stock records with
  the function \<^verbatim>\<open>parseCsv\<close>. This theory embeds that function and the JavaScript
  library functions it calls, and proves the properties the specification states about it.

  A JavaScript string is modelled as a \<^typ>\<open>string\<close>, one \<^typ>\<open>char\<close> per code unit;
  the code units covered are U+0000 to U+00FF (the type \<^typ>\<open>char\<close> has 256 values).
\<close>

subsection \<open>JavaScript strings\<close>

definition LF :: char where
  "LF = CHR 0x0A"

definition comma :: char where
  "comma = CHR '',''"

definition dquote :: char where
  "dquote = CHR 0x22"

definition space :: char where
  "space = CHR '' ''"

definition underscore :: char where
  "underscore = CHR ''_''"

text \<open>
  White space as \<^verbatim>\<open>String.prototype.trim\<close> and \<^verbatim>\<open>parseFloat\<close> see it: TAB, LF, VT,
  FF, CR, SPACE and NO-BREAK SPACE are the white space and line terminator code units
  below U+0100.
\<close>

definition is_ws :: "char \<Rightarrow> bool" where
  "is_ws c = (c = CHR 0x09 \<or> c = CHR 0x0A \<or> c = CHR 0x0B \<or> c = CHR 0x0C \<or>
              c = CHR 0x0D \<or> c = CHR 0x20 \<or> c = CHR 0xA0)"

definition trimStart :: "string \<Rightarrow> string" where
  "trimStart s = dropWhile is_ws s"

definition trim :: "string \<Rightarrow> string" where
  "trim s = rev (dropWhile is_ws (rev (dropWhile is_ws s)))"

text \<open>
  \<^verbatim>\<open>s.split(d)\<close> for a one-character separator: the pieces between the separators, so
  one piece more than there are separators; \<^verbatim>\<open>"".split(d)\<close> is \<^verbatim>\<open>[""]\<close>.
\<close>

fun split :: "char \<Rightarrow> string \<Rightarrow> string list" where
  "split d [] = [[]]"
| "split d (c # cs) =
     (if c = d then [] # split d cs
      else (case split d cs of [] \<Rightarrow> [[c]] | p # ps \<Rightarrow> (c # p) # ps))"

text \<open>
  \<^verbatim>\<open>toLowerCase\<close> on the code units below U+0100: the letters A to Z, and U+00C0 to U+00DE
  without the multiplication sign U+00D7, move up by 32.
\<close>

definition lower_char :: "char \<Rightarrow> char" where
  "lower_char c =
     (let n = (of_char c :: nat) in
      if (65 \<le> n \<and> n \<le> 90) \<or> (192 \<le> n \<and> n \<le> 222 \<and> n \<noteq> 215)
      then char_of (n + 32) else c)"

definition toLowerCase :: "string \<Rightarrow> string" where
  "toLowerCase s = map lower_char s"

fun starts_with :: "string \<Rightarrow> string \<Rightarrow> bool" where
  "starts_with s [] = True"
| "starts_with [] (p # ps) = False"
| "starts_with (c # cs) (p # ps) = (c = p \<and> starts_with cs ps)"

text \<open>\<^verbatim>\<open>s.includes(sub)\<close>: \<^verbatim>\<open>sub\<close> occurs in \<^verbatim>\<open>s\<close> at some position.\<close>

fun str_includes :: "string \<Rightarrow> string \<Rightarrow> bool" where
  "str_includes [] sub = (sub = [])"
| "str_includes (c # cs) sub = (starts_with (c # cs) sub \<or> str_includes cs sub)"

text \<open>
  \<^verbatim>\<open>s.replace(/^"|"$/g, '')\<close>: the regular expression matches one character at a time, a
  double quote at the first position (\<^verbatim>\<open>^"\<close>) or at the last position (\<^verbatim>\<open>"$\<close>); the
  global flag removes every match. \<^verbatim>\<open>replace_edge_quotes_from s n i\<close> scans the characters
  \<^verbatim>\<open>s\<close> that start at position \<^verbatim>\<open>i\<close> of a string of length \<^verbatim>\<open>n\<close>.
\<close>

fun replace_edge_quotes_from :: "string \<Rightarrow> nat \<Rightarrow> nat \<Rightarrow> string" where
  "replace_edge_quotes_from [] n i = []"
| "replace_edge_quotes_from (c # cs) n i =
     (if c = dquote \<and> (i = 0 \<or> Suc i = n) then replace_edge_quotes_from cs n (Suc i)
      else c # replace_edge_quotes_from cs n (Suc i))"

definition replace_edge_quotes :: "string \<Rightarrow> string" where
  "replace_edge_quotes s = replace_edge_quotes_from s (length s) 0"

text \<open>\<^verbatim>\<open>s.replace(/ /g, '_')\<close> and \<^verbatim>\<open>s.replace(/,/g, '')\<close>.\<close>

definition replace_spaces :: "string \<Rightarrow> string" where
  "replace_spaces s = map (\<lambda>c. if c = space then underscore else c) s"

definition remove_commas :: "string \<Rightarrow> string" where
  "remove_commas s = filter (\<lambda>c. c \<noteq> comma) s"

subsection \<open>JavaScript numbers and \<^verbatim>\<open>parseFloat\<close>\<close>

text \<open>
  A Number is an IEEE 754 binary64 value: not-a-number, an infinity, negative zero, or a
  finite value, held here as the rational it denotes (\<open>Fin 0\<close> is positive zero).
\<close>

datatype jsnum = NaN | PosInf | NegInf | NegZero | Fin rat

function bit_length :: "int \<Rightarrow> nat" where
  "bit_length n = (if n \<le> 0 then 0 else Suc (bit_length (n div 2)))"
  by pat_completeness auto
termination
  by (relation "measure nat") auto

declare bit_length.simps [simp del]

text \<open>\<open>a / b\<close> rounded to the nearest integer, a tie to the even one (\<open>0 \<le> a\<close>, \<open>0 < b\<close>).\<close>

definition round_div_even :: "int \<Rightarrow> int \<Rightarrow> int" where
  "round_div_even a b =
     (let q = a div b; r = a mod b in
      if 2 * r < b then q
      else if b < 2 * r then q + 1
      else if even q then q else q + 1)"

text \<open>
  \<open>scaled a b p\<close> is \<open>a / b / 2 ^ p\<close> rounded to an integer, and \<open>pow2 k p\<close> is the
  rational \<open>k * 2 ^ p\<close>, for an integer exponent \<open>p\<close>.
\<close>

definition scaled :: "int \<Rightarrow> int \<Rightarrow> int \<Rightarrow> int" where
  "scaled a b p =
     (if 0 \<le> p then round_div_even a (b * 2 ^ nat p)
      else round_div_even (a * 2 ^ nat (- p)) b)"

definition pow2 :: "int \<Rightarrow> int \<Rightarrow> rat" where
  "pow2 k p =
     (if 0 \<le> p then of_int (k * 2 ^ nat p)
      else of_int k / of_int (2 ^ nat (- p)))"

text \<open>
  \<open>binade a b\<close> is the integer \<open>e\<close> with \<open>2 ^ e \<le> a / b < 2 ^ (e + 1)\<close>, for positive
  \<open>a\<close> and \<open>b\<close>: the difference of the bit lengths, or one less.
\<close>

definition binade :: "int \<Rightarrow> int \<Rightarrow> int" where
  "binade a b =
     (let e = int (bit_length a) - int (bit_length b) in
      if (if 0 \<le> e then b * 2 ^ nat e \<le> a else b \<le> a * 2 ^ nat (- e)) then e else e - 1)"

text \<open>
  The binary64 value nearest to the magnitude \<open>a / b\<close> (round to nearest, ties to even),
  as the pair \<open>(k, p)\<close> that stands for \<open>k * 2 ^ p\<close>: 53 significant bits, and the
  exponent \<open>p\<close> of a unit in the last place is \<open>-1074\<close> at least. A result of
  \<open>2 ^ 1024\<close> or more is an infinity: that is an exponent \<open>p\<close> above \<open>971\<close> (the
  significand is \<open>2 ^ 52\<close> at least there), or the exponent \<open>971\<close> with a significand
  that the rounding has brought to \<open>2 ^ 53\<close>. \<open>None\<close> stands for the infinity, so that
  the caller gives it its sign.
\<close>

definition to_double :: "int \<Rightarrow> int \<Rightarrow> (int \<times> int) option" where
  "to_double a b =
     (if a = 0 then Some (0, 0)
      else
        let p = max (binade a b - 52) (- 1074);
            k = scaled a b p
        in if 972 \<le> p \<or> (971 \<le> p \<and> 2 ^ 53 \<le> k) then None else Some (k, p))"

definition signed_double :: "bool \<Rightarrow> int \<Rightarrow> int \<Rightarrow> jsnum" where
  "signed_double neg a b =
     (case to_double a b of
        None \<Rightarrow> (if neg then NegInf else PosInf)
      | Some (k, p) \<Rightarrow>
          if k = 0 then (if neg then NegZero else Fin 0)
          else if neg then Fin (- pow2 k p) else Fin (pow2 k p))"

definition is_digit :: "char \<Rightarrow> bool" where
  "is_digit c = (48 \<le> (of_char c :: nat) \<and> (of_char c :: nat) \<le> 57)"

definition digit_val :: "char \<Rightarrow> int" where
  "digit_val c = (of_char c :: int) - 48"

definition digits_val :: "string \<Rightarrow> int" where
  "digits_val ds = foldl (\<lambda>n c. 10 * n + digit_val c) 0 ds"

text \<open>
  The exponent part that follows the digits of a decimal literal: \<^verbatim>\<open>e\<close> or \<^verbatim>\<open>E\<close>, an
  optional sign and at least one digit; anything else is not part of the literal and
  the exponent is 0.
\<close>

definition exponent_part :: "string \<Rightarrow> int" where
  "exponent_part s =
     (case s of
        [] \<Rightarrow> 0
      | c # cs \<Rightarrow>
          if c = CHR ''e'' \<or> c = CHR ''E'' then
            (case cs of
               [] \<Rightarrow> 0
             | d # ds \<Rightarrow>
                 if d = CHR ''+'' then
                   (if takeWhile is_digit ds = [] then 0
                    else digits_val (takeWhile is_digit ds))
                 else if d = CHR ''-'' then
                   (if takeWhile is_digit ds = [] then 0
                    else - digits_val (takeWhile is_digit ds))
                 else
                   (if takeWhile is_digit cs = [] then 0
                    else digits_val (takeWhile is_digit cs)))
          else 0)"

text \<open>
  The longest prefix of \<open>s\<close> that is an unsigned decimal literal of the grammar of
  \<^verbatim>\<open>parseFloat\<close>: \<^verbatim>\<open>Infinity\<close>, digits with an optional fraction and exponent, or a dot
  followed by digits and an optional exponent. The value of the digits \<open>I\<close>, the
  fraction digits \<open>F\<close> and the exponent \<open>x\<close> is \<open>IF * 10 ^ (x - length F)\<close>.
\<close>

definition unsigned_literal :: "bool \<Rightarrow> string \<Rightarrow> jsnum" where
  "unsigned_literal neg s =
     (if starts_with s ''Infinity'' then (if neg then NegInf else PosInf)
      else
        let ip = takeWhile is_digit s;
            r1 = dropWhile is_digit s;
            has_dot = (r1 \<noteq> [] \<and> hd r1 = CHR ''.'');
            fp = (if has_dot then takeWhile is_digit (tl r1) else []);
            r2 = (if has_dot then dropWhile is_digit (tl r1) else r1)
        in if ip = [] \<and> fp = [] then NaN
           else
             let x = exponent_part r2 - int (length fp);
                 n = digits_val (ip @ fp)
             in if 0 \<le> x then signed_double neg (n * 10 ^ nat x) 1
                else signed_double neg n (10 ^ nat (- x)))"

text \<open>
  \<^verbatim>\<open>parseFloat(s)\<close>: leading white space is skipped, then the longest prefix that is a
  decimal literal with an optional sign is read; when there is none the result is NaN.
\<close>

definition parseFloat :: "string \<Rightarrow> jsnum" where
  "parseFloat s =
     (case trimStart s of
        [] \<Rightarrow> NaN
      | c # cs \<Rightarrow>
          if c = CHR ''-'' then unsigned_literal True cs
          else if c = CHR ''+'' then unsigned_literal False cs
          else unsigned_literal False (c # cs))"

text \<open>\<^verbatim>\<open>x || 0\<close> for a number \<open>x\<close>: NaN and both zeros are falsy.\<close>

definition or_zero :: "jsnum \<Rightarrow> jsnum" where
  "or_zero x = (if x = NaN \<or> x = NegZero \<or> x = Fin 0 then Fin 0 else x)"

subsection \<open>Values, records, exceptions and the console\<close>

text \<open>
  A field of a record holds a string or a number. A record is a JavaScript object created
  by \<^verbatim>\<open>{}\<close>: its own properties in the order of their creation, as an association list
  with distinct keys.
\<close>

datatype jsval = Str string | Num jsnum

type_synonym csv_record = "(string \<times> jsval) list"

text \<open>
  \<^verbatim>\<open>row[key] = value\<close> on an object created by \<^verbatim>\<open>{}\<close>: the property is created, or
  overwritten where it stands. The key \<^verbatim>\<open>__proto__\<close> is the exception: the assignment runs
  the setter that the object inherits, and the setter ignores a value that is a string or
  a number, so the object keeps its properties.
\<close>

fun update :: "string \<Rightarrow> jsval \<Rightarrow> csv_record \<Rightarrow> csv_record" where
  "update k v [] = [(k, v)]"
| "update k v (p # ps) = (if fst p = k then (k, v) # ps else p # update k v ps)"

definition set_property :: "csv_record \<Rightarrow> string \<Rightarrow> jsval \<Rightarrow> csv_record" where
  "set_property row key v = (if key = ''__proto__'' then row else update key v row)"

text \<open>
  \<^verbatim>\<open>row.Symbol\<close>: the own property; the prototype of the object has no property of that
  name, so a missing property reads as \<^verbatim>\<open>undefined\<close> (\<open>None\<close>).
\<close>

definition get_property :: "csv_record \<Rightarrow> string \<Rightarrow> jsval option" where
  "get_property row key = map_of row key"

text \<open>
  The only exception the parser's operations can raise is the TypeError of a method call
  on \<^verbatim>\<open>undefined\<close>, which reading an array past its end yields.
\<close>

datatype error = TypeError

definition at_index :: "'a list \<Rightarrow> nat \<Rightarrow> 'a option" where
  "at_index xs i = (if i < length xs then Some (xs ! i) else None)"

text \<open>
  What the parser writes to the console: the message and the values it is formatted
  with. Nothing reads the console back.
\<close>

datatype console_entry =
    WarnNoHeaderRow
  | LogDetectedHeaders "string list"
  | WarnSkipSymbol nat string
  | WarnSkipColumnCount nat nat nat string
  | LogFinalSize nat
  | WarnNoDataRows

type_synonym console = "console_entry list"

subsection \<open>The parser\<close>

text \<open>
  Lines 79 to 83: a header name is the token trimmed, without a double quote at its
  first and last position, with every space replaced by an underscore.
\<close>

definition header_name :: "string \<Rightarrow> string" where
  "header_name header = (let header = replace_edge_quotes (trim header) in replace_spaces header)"

text \<open>
  Lines 73 to 88, the loop that finds the header row. The result is the pair of
  \<^verbatim>\<open>headers\<close> (\<open>None\<close> for \<^verbatim>\<open>null\<close>) and \<^verbatim>\<open>headerStartIndex\<close>.
\<close>

function find_header :: "string list \<Rightarrow> nat \<Rightarrow> error + (string list option \<times> int)" where
  "find_header lines i =
     (if i < length lines then
        (case at_index lines i of
           None \<Rightarrow> Inl TypeError
         | Some l \<Rightarrow>
             let line = trim l in
             if length line > 0 then
               let parts = filter (\<lambda>part. length (trim part) > 0) (split comma line) in
               if length parts > 0 then
                 (case at_index parts 0 of
                    None \<Rightarrow> Inl TypeError
                  | Some part \<Rightarrow>
                      if str_includes (toLowerCase part) ''symbol''
                      then Inr (Some (map header_name (split comma line)), int i)
                      else find_header lines (i + 1))
               else find_header lines (i + 1)
             else find_header lines (i + 1))
      else Inr (None, - 1))"
  by pat_completeness auto
termination
  by (relation "measure (\<lambda>(lines, i). length lines - i)") auto

declare find_header.simps [simp del]

text \<open>
  Lines 105 to 117, the scanner of one data line: \<^verbatim>\<open>values\<close>, \<^verbatim>\<open>currentValue\<close> and
  \<^verbatim>\<open>inQuotes\<close> are the loop's variables; the first argument is the rest of the line.
\<close>

fun tokenize :: "string \<Rightarrow> string list \<Rightarrow> string \<Rightarrow> bool \<Rightarrow> string list" where
  "tokenize [] values currentValue inQuotes = values @ [trim currentValue]"
| "tokenize (char # rest) values currentValue inQuotes =
     (if char = dquote then tokenize rest values currentValue (\<not> inQuotes)
      else if char = comma \<and> \<not> inQuotes then tokenize rest (values @ [trim currentValue]) [] inQuotes
      else tokenize rest values (currentValue @ [char]) inQuotes)"

text \<open>
  Lines 123 to 135: the value stored for the column \<^verbatim>\<open>header\<close>. The second test reads
  the value the first one left; a header that passes the second test fails the first,
  so the value it reads is the string.
\<close>

definition convert :: "string \<Rightarrow> string \<Rightarrow> jsval" where
  "convert header v =
     (let v = replace_edge_quotes v;
          v1 = (if header = ''Current_price'' \<or> header = ''Price_change'' \<or>
                   header = ''Liquidity'' \<or> header = ''Volume''
                then Num (or_zero (parseFloat (remove_commas v)))
                else Str v)
      in if header = ''Percent_change''
         then (case v1 of Str s \<Rightarrow> Num (or_zero (parseFloat s)) | Num n \<Rightarrow> Num (or_zero n))
         else v1)"

text \<open>Lines 122 to 138, the loop that fills \<^verbatim>\<open>row\<close>.\<close>

function build_row :: "string list \<Rightarrow> string list \<Rightarrow> nat \<Rightarrow> csv_record \<Rightarrow> error + csv_record" where
  "build_row headers values j row =
     (if j < length headers then
        (case at_index values j of
           None \<Rightarrow> Inl TypeError
         | Some v \<Rightarrow>
             build_row headers values (j + 1)
               (set_property row (headers ! j) (convert (headers ! j) v)))
      else Inr row)"
  by pat_completeness auto
termination
  by (relation "measure (\<lambda>(headers, values, j, row). length headers - j)") auto

declare build_row.simps [simp del]

text \<open>
  Line 140, \<^verbatim>\<open>row.Symbol && row.Symbol.length > 0\<close>: a missing property and the empty
  string are falsy; a number has no length, and \<^verbatim>\<open>undefined > 0\<close> is false.
\<close>

definition has_symbol :: "csv_record \<Rightarrow> bool" where
  "has_symbol row =
     (case get_property row ''Symbol'' of
        None \<Rightarrow> False
      | Some (Str s) \<Rightarrow> s \<noteq> [] \<and> length s > 0
      | Some (Num n) \<Rightarrow> False)"

text \<open>
  Lines 97 to 149, the loop over the data rows; \<^verbatim>\<open>data\<close> and the console are its state.
  An exception ends the loop with the console as it stands.
\<close>

function rows_loop ::
  "string list \<Rightarrow> string list \<Rightarrow> nat \<Rightarrow> csv_record list \<Rightarrow> console \<Rightarrow> (error + csv_record list) \<times> console"
where
  "rows_loop lines headers i data con =
     (if i < length lines then
        (case at_index lines i of
           None \<Rightarrow> (Inl TypeError, con)
         | Some l \<Rightarrow>
             let line = trim l in
             if length line > 0 then
               let values = tokenize line [] [] False in
               if length values = length headers then
                 (case build_row headers values 0 [] of
                    Inl e \<Rightarrow> (Inl e, con)
                  | Inr row \<Rightarrow>
                      if has_symbol row
                      then rows_loop lines headers (i + 1) (data @ [row]) con
                      else rows_loop lines headers (i + 1) data
                             (con @ [WarnSkipSymbol (i + 1) line]))
               else rows_loop lines headers (i + 1) data
                      (con @ [WarnSkipColumnCount (i + 1) (length headers) (length values) line])
             else rows_loop lines headers (i + 1) data con)
      else (Inr data, con))"
  by pat_completeness auto
termination
  by (relation "measure (\<lambda>(lines, headers, i, data, con). length lines - i)") auto

declare rows_loop.simps [simp del]

text \<open>
  Lines 65 to 156. \<^verbatim>\<open>parseCsv_on con csvText\<close> is one call of the function with the
  console holding \<open>con\<close>: the value returned, or the exception raised, and the console
  after the call.
\<close>

definition parseCsv_on :: "console \<Rightarrow> string \<Rightarrow> (error + csv_record list) \<times> console" where
  "parseCsv_on con csvText =
     (let lines = split LF csvText in
      case find_header lines 0 of
        Inl e \<Rightarrow> (Inl e, con)
      | Inr (headers, headerStartIndex) \<Rightarrow>
          (case headers of
             None \<Rightarrow> (Inr [], con @ [WarnNoHeaderRow])
           | Some hs \<Rightarrow>
               (case rows_loop lines hs (nat (headerStartIndex + 1)) [] (con @ [LogDetectedHeaders hs]) of
                  (Inl e, con') \<Rightarrow> (Inl e, con')
                | (Inr data, con') \<Rightarrow>
                    (Inr data,
                     con' @ [LogFinalSize (length data)] @
                       (if length data = 0 then [WarnNoDataRows] else [])))))"

definition parseCsv :: "string \<Rightarrow> error + csv_record list" where
  "parseCsv csvText = fst (parseCsv_on [] csvText)"

subsection \<open>The bodies of the loops, as functions of one line\<close>

text \<open>
  The test of lines 74 to 78 on the line \<open>l\<close> (\<^verbatim>\<open>parts[0]\<close> is read only when
  \<^verbatim>\<open>parts\<close> is not empty).
\<close>

definition header_test :: "string \<Rightarrow> bool" where
  "header_test l =
     (case filter (\<lambda>part. length (trim part) > 0) (split comma (trim l)) of
        [] \<Rightarrow> False
      | part # _ \<Rightarrow> length (trim l) > 0 \<and> str_includes (toLowerCase part) ''symbol'')"

text \<open>
  The assignments of lines 122 to 138 for the headers and values that remain, and the
  values that lines 98 to 117 read from the line \<open>l\<close>.
\<close>

definition convert_all :: "string list \<Rightarrow> string list \<Rightarrow> csv_record \<Rightarrow> csv_record" where
  "convert_all headers values row =
     foldl (\<lambda>row (h, v). set_property row h (convert h v)) row (zip headers values)"

definition fields :: "string \<Rightarrow> string list" where
  "fields l = tokenize (trim l) [] [] False"

text \<open>The record that lines 98 to 147 push for the line \<open>l\<close>, if any.\<close>

definition line_record :: "string list \<Rightarrow> string \<Rightarrow> csv_record option" where
  "line_record headers l =
     (if trim l \<noteq> [] \<and> length (fields l) = length headers \<and>
         has_symbol (convert_all headers (fields l) [])
      then Some (convert_all headers (fields l) []) else None)"

definition trimEnd :: "string \<Rightarrow> string" where
  "trimEnd s = rev (dropWhile is_ws (rev s))"

subsection \<open>The notions of the specification\<close>

text \<open>
  A blank line is a whitespace-only line. The header line is a line that is not blank
  and whose first non-empty token, of those the commas separate, contains
  \<^verbatim>\<open>symbol\<close> whatever the case of its letters.
\<close>

definition blank :: "string \<Rightarrow> bool" where
  "blank s = list_all is_ws s"

definition first_token :: "string \<Rightarrow> string option" where
  "first_token l = List.find (\<lambda>p. \<not> blank p) (split comma l)"

definition is_header_line :: "string \<Rightarrow> bool" where
  "is_header_line l =
     (\<not> blank l \<and>
      (case first_token l of
         None \<Rightarrow> False
       | Some p \<Rightarrow> str_includes (toLowerCase p) ''symbol''))"

text \<open>
  A header name: the token trimmed, one leading and one trailing double quote stripped
  if present, every space replaced by an underscore.
\<close>

definition strip_quote_pair :: "string \<Rightarrow> string" where
  "strip_quote_pair s =
     (let s1 = (case s of [] \<Rightarrow> [] | c # cs \<Rightarrow> if c = dquote then cs else s)
      in if s1 \<noteq> [] \<and> last s1 = dquote then butlast s1 else s1)"

definition normalize_header :: "string \<Rightarrow> string" where
  "normalize_header tok =
     map (\<lambda>c. if c = CHR '' '' then CHR ''_'' else c) (strip_quote_pair (trim tok))"

definition header_row :: "string \<Rightarrow> string list" where
  "header_row l = map normalize_header (split comma l)"

text \<open>
  The text of the column called \<open>name\<close> in a row of field texts: of two columns of one
  name, the later one counts.
\<close>

definition column_value :: "string list \<Rightarrow> string list \<Rightarrow> string \<Rightarrow> string option" where
  "column_value headers values name = map_of (rev (zip headers values)) name"

text \<open>
  A data row is well formed when it has as many fields as the header row has names, and
  bears a symbol when the text of its \<^verbatim>\<open>Symbol\<close> column is not empty.
\<close>

definition well_formed :: "string list \<Rightarrow> string \<Rightarrow> bool" where
  "well_formed headers l = (length (fields l) = length headers)"

definition symbol_bearing :: "string list \<Rightarrow> string \<Rightarrow> bool" where
  "symbol_bearing headers l =
     (case column_value headers (fields l) ''Symbol'' of None \<Rightarrow> False | Some s \<Rightarrow> s \<noteq> [])"

definition data_row :: "string list \<Rightarrow> string \<Rightarrow> bool" where
  "data_row headers l = (well_formed headers l \<and> symbol_bearing headers l)"

text \<open>
  The value a record holds for the column \<open>name\<close> whose field text is \<open>txt\<close>: the four
  price and volume columns drop the commas before they parse the number, the percentage
  column parses the text as it is, and every other column keeps the text.
\<close>

definition stored_value :: "string \<Rightarrow> string \<Rightarrow> jsval" where
  "stored_value name txt =
     (if name = ''Current_price'' \<or> name = ''Price_change'' \<or> name = ''Liquidity'' \<or>
         name = ''Volume''
      then Num (or_zero (parseFloat (remove_commas txt)))
      else if name = ''Percent_change'' then Num (or_zero (parseFloat txt))
      else Str txt)"

subsection \<open>The library functions\<close>

lemma split_not_Nil [simp]: "split d s \<noteq> []"
  by (induction s) (auto split: list.splits)

lemma starts_with_iff: "starts_with s p \<longleftrightarrow> (\<exists>r. s = p @ r)"
  by (induction s p rule: starts_with.induct) auto

lemma str_includes_iff: "str_includes s sub \<longleftrightarrow> (\<exists>pre post. s = pre @ sub @ post)"
proof (induction s)
  case Nil
  then show ?case by auto
next
  case (Cons c cs)
  show ?case
  proof
    assume "str_includes (c # cs) sub"
    then consider "starts_with (c # cs) sub" | "str_includes cs sub" by auto
    then show "\<exists>pre post. c # cs = pre @ sub @ post"
    proof cases
      case 1
      then obtain r where "c # cs = sub @ r" by (auto simp add: starts_with_iff)
      then have "c # cs = [] @ sub @ r" by simp
      then show ?thesis by blast
    next
      case 2
      then obtain pre post where "cs = pre @ sub @ post" using Cons by blast
      then have "c # cs = (c # pre) @ sub @ post" by simp
      then show ?thesis by blast
    qed
  next
    assume "\<exists>pre post. c # cs = pre @ sub @ post"
    then obtain pre post where e: "c # cs = pre @ sub @ post" by blast
    show "str_includes (c # cs) sub"
    proof (cases pre)
      case Nil
      then have "starts_with (c # cs) sub" using e by (auto simp add: starts_with_iff)
      then show ?thesis by simp
    next
      case (Cons a pre')
      then have "cs = pre' @ sub @ post" using e by simp
      then show ?thesis using Cons.IH by auto
    qed
  qed
qed

lemma split_length: "length (split d s) = Suc (length (filter (\<lambda>c. c = d) s))"
  by (induction s) (auto split: list.splits)

lemma split_no_separator: "p \<in> set (split d s) \<Longrightarrow> d \<notin> set p"
proof (induction s arbitrary: p)
  case Nil
  then show ?case by simp
next
  case (Cons c s)
  obtain q qs where q: "split d s = q # qs"
    by (cases "split d s") simp_all
  show ?case
    using Cons q by (auto split: if_splits)
qed

lemma split_join:
  "foldr (\<lambda>p r. p @ d # r) (butlast (split d s)) (last (split d s)) = s"
proof (induction s)
  case Nil
  then show ?case by simp
next
  case (Cons c s)
  obtain q qs where q: "split d s = q # qs"
    by (cases "split d s") simp_all
  show ?case
    using Cons q by (cases qs) auto
qed

lemma trim_decompose:
  "\<exists>a b. s = a @ trim s @ b \<and> list_all is_ws a \<and> list_all is_ws b"
proof -
  let ?m = "dropWhile is_ws s"
  have 1: "s = takeWhile is_ws s @ ?m" by simp
  have "rev ?m = takeWhile is_ws (rev ?m) @ dropWhile is_ws (rev ?m)" by simp
  then have "?m = rev (dropWhile is_ws (rev ?m)) @ rev (takeWhile is_ws (rev ?m))"
    by (metis rev_append rev_rev_ident)
  then have 2: "?m = trim s @ rev (takeWhile is_ws (rev ?m))"
    by (simp add: trim_def)
  have 3: "list_all is_ws (takeWhile is_ws s)"
    by (simp add: list_all_iff) (meson set_takeWhileD)
  have 4: "list_all is_ws (rev (takeWhile is_ws (rev ?m)))"
    by (simp add: list_all_iff) (meson set_takeWhileD)
  have "s = takeWhile is_ws s @ trim s @ rev (takeWhile is_ws (rev ?m))"
    using 1 2 by metis
  then show ?thesis
    using 3 4 by blast
qed

lemma trim_ends:
  "trim s \<noteq> [] \<Longrightarrow> \<not> is_ws (hd (trim s)) \<and> \<not> is_ws (last (trim s))"
proof -
  assume n: "trim s \<noteq> []"
  let ?m = "dropWhile is_ws s"
  let ?r = "dropWhile is_ws (rev ?m)"
  have t: "trim s = rev ?r" by (simp add: trim_def)
  then have r: "?r \<noteq> []" using n by simp
  then have "\<not> is_ws (hd ?r)" by (rule hd_dropWhile)
  then have l: "\<not> is_ws (last (trim s))"
    using r by (simp add: t last_rev)
  have m: "?m \<noteq> []"
  proof
    assume e: "?m = []"
    show False using r unfolding e by simp
  qed
  then have h: "\<not> is_ws (hd ?m)" by (rule hd_dropWhile)
  have "rev ?m = takeWhile is_ws (rev ?m) @ ?r" by simp
  then have "?m = rev ?r @ rev (takeWhile is_ws (rev ?m))"
    by (metis rev_append rev_rev_ident)
  then have "hd ?m = hd (rev ?r)"
    using r by (metis hd_append2 rev_is_Nil_conv)
  then show ?thesis
    using h l t by simp
qed

subsection \<open>The rounding to binary64\<close>

text \<open>
  The pair that \<open>to_double\<close> computes is a binary64 value: a significand of at most 53
  bits, of exactly 53 bits above the least exponent, an exponent from \<open>-1074\<close> to
  \<open>971\<close>, and a value below \<open>2 ^ 1024\<close> that is within half a unit in the last place
  of \<open>a / b\<close>. The result is the infinity exactly from \<open>2 ^ 1024 - 2 ^ 970\<close> on, the
  midpoint of the largest finite value and \<open>2 ^ 1024\<close>.
\<close>

lemma bit_length_pos: "0 < n \<Longrightarrow> 0 < bit_length n"
  by (subst bit_length.simps) simp

lemma bit_length_bounds:
  "0 < n \<Longrightarrow> 2 ^ (bit_length n - 1) \<le> n \<and> n < 2 ^ bit_length n"
proof (induction n rule: bit_length.induct)
  case (1 n)
  have bl: "bit_length n = Suc (bit_length (n div 2))"
    using "1.prems" by (subst bit_length.simps) simp
  show ?case
  proof (cases "n div 2 = 0")
    case True
    then have "n = 1" using "1.prems" by presburger
    moreover have "bit_length (n div 2) = 0"
      using True by (subst bit_length.simps) simp
    ultimately show ?thesis using bl by simp
  next
    case False
    then have pos: "0 < n div 2" using "1.prems" by presburger
    have nle: "\<not> n \<le> 0" using "1.prems" by simp
    from "1.IH"[OF nle pos] have lo: "2 ^ (bit_length (n div 2) - 1) \<le> n div 2"
      and hi: "n div 2 < 2 ^ bit_length (n div 2)" by simp_all
    obtain l where l: "bit_length (n div 2) = Suc l"
      using bit_length_pos[OF pos] by (cases "bit_length (n div 2)") simp_all
    have "(2::int) ^ Suc l \<le> 2 * (n div 2)" using lo l by simp
    then have a: "(2::int) ^ Suc l \<le> n" by presburger
    have "2 * (n div 2) + 1 < 2 * 2 ^ Suc l" using hi l by simp
    then have b: "n < 2 ^ Suc (Suc l)" by (simp; presburger)
    show ?thesis using a b bl l by simp
  qed
qed

lemma round_div_even_nearest:
  assumes "0 < b"
  shows "2 * \<bar>round_div_even a b * b - a\<bar> \<le> b"
proof -
  have m: "a = (a div b) * b + a mod b" by simp
  have r: "0 \<le> a mod b" "a mod b < b" using assms by simp_all
  have 1: "2 * \<bar>(a div b) * b - a\<bar> = 2 * (a mod b)"
    using m r by (smt (verit))
  have 2: "2 * \<bar>(a div b + 1) * b - a\<bar> = 2 * (b - a mod b)"
  proof -
    have "(a div b + 1) * b - a = b - a mod b"
      using m by (simp add: algebra_simps)
    then show ?thesis using r by simp
  qed
  show ?thesis
    unfolding round_div_even_def Let_def using 1 2 r by auto
qed

lemma round_div_even_nonneg: "0 \<le> a \<Longrightarrow> 0 < b \<Longrightarrow> 0 \<le> round_div_even a b"
  unfolding round_div_even_def Let_def
  by (auto simp add: pos_imp_zdiv_nonneg_iff intro: add_nonneg_nonneg)

lemma powi_nat: "0 \<le> p \<Longrightarrow> (2::rat) powi p = 2 ^ nat p"
  by (metis int_nat_eq power_int_of_nat)

lemma powi_neg: "p < 0 \<Longrightarrow> (2::rat) powi p = 1 / 2 ^ nat (- p)"
proof -
  assume "p < 0"
  then have "p = - int (nat (- p))" by simp
  then have "(2::rat) powi p = 2 powi (- int (nat (- p)))" by simp
  also have "\<dots> = 1 / 2 powi int (nat (- p))" by (rule power_int_minus_divide)
  finally show ?thesis by (simp only: power_int_of_nat)
qed

lemma pow2_eq: "pow2 k p = of_int k * 2 powi p"
proof (cases "0 \<le> p")
  case True
  then show ?thesis by (simp add: pow2_def powi_nat)
next
  case False
  then show ?thesis by (simp add: pow2_def powi_neg)
qed

lemma round_div_even_rat:
  assumes "0 < b"
  shows "\<bar>of_int (round_div_even a b) - of_int a / of_int b\<bar> \<le> (1 / 2 :: rat)"
proof -
  let ?k = "round_div_even a b"
  have b: "(0::rat) < of_int b" using assms by simp
  have "of_int (2 * \<bar>?k * b - a\<bar>) \<le> (of_int b :: rat)"
    using round_div_even_nearest[OF assms, of a] by (simp only: of_int_le_iff)
  then have "2 * \<bar>of_int ?k * of_int b - of_int a\<bar> \<le> (of_int b :: rat)"
    by simp
  moreover have "of_int ?k - of_int a / of_int b = (of_int ?k * of_int b - of_int a) / (of_int b :: rat)"
    using b by (simp add: field_simps)
  ultimately show ?thesis
    using b by (simp add: field_simps abs_divide)
qed

lemma scaled_rat:
  assumes "0 < b"
  shows "\<bar>of_int (scaled a b p) - of_int a / of_int b / 2 powi p\<bar> \<le> (1 / 2 :: rat)"
proof (cases "0 \<le> p")
  case True
  have "0 < b * 2 ^ nat p" using assms by simp
  from round_div_even_rat[OF this, of a] show ?thesis
    using True by (simp add: scaled_def powi_nat)
next
  case False
  from round_div_even_rat[OF assms, of "a * 2 ^ nat (- p)"] show ?thesis
    using False by (simp add: scaled_def powi_neg)
qed

lemma binade_bounds:
  assumes "0 < a" and "0 < b"
  shows "(2::rat) powi binade a b \<le> of_int a / of_int b \<and>
         of_int a / of_int b < (2::rat) powi (binade a b + 1)"
proof -
  let ?x = "of_int a / of_int b :: rat"
  let ?la = "bit_length a" and ?lb = "bit_length b"
  define e where "e = int ?la - int ?lb"
  have ra: "(0::rat) < of_int a" and rb: "(0::rat) < of_int b" using assms by simp_all
  have la: "0 < ?la" and lb: "0 < ?lb" using assms by (simp_all add: bit_length_pos)
  have a1: "(2::rat) ^ (?la - 1) \<le> of_int a" and a2: "of_int a < (2::rat) ^ ?la"
  proof -
    have "(2::int) ^ (?la - 1) \<le> a" "a < 2 ^ ?la"
      using bit_length_bounds[OF assms(1)] by simp_all
    then have "of_int ((2::int) ^ (?la - 1)) \<le> (of_int a :: rat)"
      "(of_int a :: rat) < of_int (2 ^ ?la)"
      by (simp_all only: of_int_le_iff of_int_less_iff)
    then show "(2::rat) ^ (?la - 1) \<le> of_int a" "of_int a < (2::rat) ^ ?la" by simp_all
  qed
  have b1: "(2::rat) ^ (?lb - 1) \<le> of_int b" and b2: "of_int b < (2::rat) ^ ?lb"
  proof -
    have "(2::int) ^ (?lb - 1) \<le> b" "b < 2 ^ ?lb"
      using bit_length_bounds[OF assms(2)] by simp_all
    then have "of_int ((2::int) ^ (?lb - 1)) \<le> (of_int b :: rat)"
      "(of_int b :: rat) < of_int (2 ^ ?lb)"
      by (simp_all only: of_int_le_iff of_int_less_iff)
    then show "(2::rat) ^ (?lb - 1) \<le> of_int b" "of_int b < (2::rat) ^ ?lb" by simp_all
  qed
  have pa: "(2::rat) powi int ?la = 2 ^ ?la" and pb: "(2::rat) powi int ?lb = 2 ^ ?lb"
    by (simp_all only: power_int_of_nat)
  have pa1: "(2::rat) powi (int ?la - 1) = 2 ^ (?la - 1)"
    using la by (metis of_nat_1 of_nat_diff power_int_of_nat Suc_leI One_nat_def)
  have pb1: "(2::rat) powi (int ?lb - 1) = 2 ^ (?lb - 1)"
    using lb by (metis of_nat_1 of_nat_diff power_int_of_nat Suc_leI One_nat_def)
  have up: "?x < 2 powi (e + 1)"
  proof -
    have "?x < 2 ^ ?la / 2 ^ (?lb - 1)"
      using a2 b1 ra rb by (simp add: frac_less)
    also have "\<dots> = 2 powi (int ?la - (int ?lb - 1))"
    proof -
      have "(2::rat) powi (int ?la - (int ?lb - 1)) = 2 powi int ?la / 2 powi (int ?lb - 1)"
        by (rule power_int_diff) simp
      then show ?thesis by (simp only: pa pb1)
    qed
    also have "int ?la - (int ?lb - 1) = e + 1" by (simp add: e_def)
    finally show ?thesis .
  qed
  have lo: "2 powi (e - 1) < ?x"
  proof -
    have "(2::rat) ^ (?la - 1) / 2 ^ ?lb < ?x"
      using a1 b2 ra rb by (simp add: frac_less2)
    moreover have "(2::rat) ^ (?la - 1) / 2 ^ ?lb = 2 powi (int ?la - 1 - int ?lb)"
    proof -
      have "(2::rat) powi (int ?la - 1 - int ?lb) = 2 powi (int ?la - 1) / 2 powi int ?lb"
        by (rule power_int_diff) simp
      then show ?thesis by (simp only: pa1 pb)
    qed
    moreover have "int ?la - 1 - int ?lb = e - 1" by (simp add: e_def)
    ultimately show ?thesis by simp
  qed
  have test: "(if 0 \<le> e then b * 2 ^ nat e \<le> a else b \<le> a * 2 ^ nat (- e)) \<longleftrightarrow> 2 powi e \<le> ?x"
  proof (cases "0 \<le> e")
    case True
    have "b * 2 ^ nat e \<le> a \<longleftrightarrow> (of_int (b * 2 ^ nat e) :: rat) \<le> of_int a"
      by (simp only: of_int_le_iff)
    also have "\<dots> \<longleftrightarrow> 2 ^ nat e \<le> ?x"
      using rb by (simp add: field_simps)
    finally show ?thesis using True by (simp add: powi_nat)
  next
    case False
    have "b \<le> a * 2 ^ nat (- e) \<longleftrightarrow> (of_int b :: rat) \<le> of_int (a * 2 ^ nat (- e))"
      by (simp only: of_int_le_iff)
    also have "\<dots> \<longleftrightarrow> 1 / 2 ^ nat (- e) \<le> ?x"
      using rb by (simp add: field_simps)
    finally show ?thesis using False by (simp add: powi_neg)
  qed
  have "binade a b =
      (if (if 0 \<le> e then b * 2 ^ nat e \<le> a else b \<le> a * 2 ^ nat (- e)) then e else e - 1)"
    by (simp add: binade_def Let_def e_def)
  then have bd: "binade a b = (if 2 powi e \<le> ?x then e else e - 1)"
    by (simp only: test)
  show ?thesis
  proof (cases "2 powi e \<le> ?x")
    case True
    then show ?thesis using bd up by simp
  next
    case False
    then show ?thesis using bd lo by simp
  qed
qed

lemma round_div_even_tie:
  assumes "0 < b" and "2 * a = (2 * m + 1) * b"
  shows "round_div_even a b = (if even m then m else m + 1)"
proof -
  define r where "r = a - m * b"
  have r2: "2 * r = b" using assms(2) by (simp add: r_def algebra_simps)
  then have r: "0 \<le> r" "r < b" using assms(1) by linarith+
  have a: "a = m * b + r" by (simp add: r_def)
  have q: "a div b = m" using r a by simp
  have md: "a mod b = r" using r a by simp
  show ?thesis
    unfolding round_div_even_def Let_def q md using r2 by simp
qed

lemma scaled_nonneg: "0 \<le> a \<Longrightarrow> 0 < b \<Longrightarrow> 0 \<le> scaled a b p"
  by (simp add: scaled_def round_div_even_nonneg)

lemma scaled_tie:
  assumes "0 < b" and "of_int a / of_int b / 2 powi p = (of_int m + 1 / 2 :: rat)"
  shows "scaled a b p = (if even m then m else m + 1)"
proof (cases "0 \<le> p")
  case True
  have B: "0 < b * 2 ^ nat p" using assms(1) by simp
  have "(of_int a :: rat) / of_int (b * 2 ^ nat p) = of_int m + 1 / 2"
    using assms(2) True by (simp add: powi_nat)
  then have "(of_int (2 * a) :: rat) = of_int ((2 * m + 1) * (b * 2 ^ nat p))"
    using B assms(1) by (simp add: field_simps)
  then have "2 * a = (2 * m + 1) * (b * 2 ^ nat p)"
    by (simp only: of_int_eq_iff)
  from round_div_even_tie[OF B this] show ?thesis
    using True by (simp add: scaled_def)
next
  case False
  have "(of_int (a * 2 ^ nat (- p)) :: rat) / of_int b = of_int m + 1 / 2"
    using assms(2) False by (simp add: powi_neg)
  then have "(of_int (2 * (a * 2 ^ nat (- p))) :: rat) = of_int ((2 * m + 1) * b)"
    using assms(1) by (simp add: field_simps)
  then have "2 * (a * 2 ^ nat (- p)) = (2 * m + 1) * b"
    by (simp only: of_int_eq_iff)
  from round_div_even_tie[OF assms(1) this] show ?thesis
    using False by (simp add: scaled_def)
qed

text \<open>The facts about the significand and the exponent that \<open>to_double\<close> computes.\<close>

lemma significand_bounds:
  assumes "0 < a" and "0 < b"
    and "p = max (binade a b - 52) (- 1074)" and "k = scaled a b p"
  shows "0 \<le> k" and "k \<le> 2 ^ 53" and "- 1074 < p \<Longrightarrow> 2 ^ 52 \<le> k"
    and "\<bar>of_int k - of_int a / of_int b / 2 powi p\<bar> \<le> (1 / 2 :: rat)"
proof -
  let ?x = "of_int a / of_int b :: rat"
  let ?e = "binade a b"
  let ?y = "?x / 2 powi p"
  have pp: "(0::rat) < 2 powi p" by (simp add: zero_less_power_int)
  have near: "\<bar>of_int k - ?y\<bar> \<le> 1 / 2"
    unfolding assms(4) by (rule scaled_rat[OF assms(2)])
  show "\<bar>of_int k - ?y\<bar> \<le> 1 / 2" by (rule near)
  show "0 \<le> k"
    unfolding assms(4) using assms(1,2) by (simp add: scaled_nonneg)
  have e1: "(2::rat) powi ?e \<le> ?x" and e2: "?x < 2 powi (?e + 1)"
    using binade_bounds[OF assms(1,2)] by simp_all
  have "?y < 2 powi (?e + 1) / 2 powi p"
    by (rule divide_strict_right_mono[OF e2 pp])
  also have "\<dots> = 2 powi (?e + 1 - p)"
    by (rule power_int_diff[symmetric]) simp
  also have "\<dots> \<le> 2 powi 53"
    by (rule power_int_increasing) (use assms(3) in simp_all)
  finally have y53: "?y < 2 ^ 53" by simp
  have "(of_int k :: rat) \<le> ?y + 1 / 2" using near by linarith
  then have "(of_int k :: rat) \<le> of_int (2 ^ 53) + 1 / 2" using y53 by simp
  then show "k \<le> 2 ^ 53" by linarith
  show "2 ^ 52 \<le> k" if "- 1074 < p"
  proof -
    have p: "p = ?e - 52" using that assms(3) by linarith
    have "(2::rat) powi 52 = 2 powi (?e - p)" using p by simp
    also have "\<dots> = 2 powi ?e / 2 powi p"
      by (rule power_int_diff) simp
    also have "\<dots> \<le> ?y"
      by (rule divide_right_mono[OF e1 less_imp_le[OF pp]])
    finally have "(2::rat) powi 52 \<le> ?y" .
    then have h: "(of_int (2 ^ 52) :: rat) \<le> ?y" by simp
    have "(of_int (2 ^ 52) :: rat) - 1 / 2 \<le> of_int k" using h near by linarith
    then show ?thesis by linarith
  qed
qed

lemma overflow_threshold: "(2 ^ 53 - 1 / 2) * (2::rat) powi 971 = 2 ^ 1024 - 2 ^ 970"
proof -
  have a: "(2::rat) ^ 53 * 2 powi 971 = 2 ^ 1024"
    by (simp only: power_int_numeral power_add[symmetric]) simp
  have b: "(1 / 2) * (2::rat) powi 971 = 2 ^ 970"
    by (simp only: power_int_numeral) simp
  show ?thesis
    using a b by (simp only: left_diff_distrib)
qed

lemma to_double_finite:
  assumes "0 < a" and "0 < b" and "to_double a b = Some (k, p)"
  shows "0 \<le> k \<and> k \<le> 2 ^ 53 \<and> - 1074 \<le> p \<and> p \<le> 971 \<and>
         (p = 971 \<longrightarrow> k < 2 ^ 53) \<and> (- 1074 < p \<longrightarrow> 2 ^ 52 \<le> k)"
    and "\<bar>pow2 k p - of_int a / of_int b\<bar> \<le> 2 powi p / 2"
    and "pow2 k p < 2 powi 1024"
proof -
  let ?p = "max (binade a b - 52) (- 1074)"
  let ?k = "scaled a b ?p"
  have eq: "k = ?k" "p = ?p" and no: "\<not> (972 \<le> p \<or> (971 \<le> p \<and> 2 ^ 53 \<le> k))"
    using assms(1,3) by (auto simp add: to_double_def Let_def split: if_splits)
  note sb = significand_bounds[OF assms(1,2) eq(2) eq(1)[unfolded eq(2)[symmetric]]]
  show fmt: "0 \<le> k \<and> k \<le> 2 ^ 53 \<and> - 1074 \<le> p \<and> p \<le> 971 \<and>
         (p = 971 \<longrightarrow> k < 2 ^ 53) \<and> (- 1074 < p \<longrightarrow> 2 ^ 52 \<le> k)"
    using sb(1,2,3) no eq(2) by auto
  have pp: "(0::rat) < 2 powi p" by (simp add: zero_less_power_int)
  have "\<bar>pow2 k p - of_int a / of_int b\<bar> =
        \<bar>of_int k - of_int a / of_int b / 2 powi p\<bar> * 2 powi p"
  proof -
    have "pow2 k p - of_int a / of_int b =
          (of_int k - of_int a / of_int b / 2 powi p) * 2 powi p"
      using pp by (simp add: pow2_eq field_simps)
    then show ?thesis using pp by (simp add: abs_mult)
  qed
  also have "\<dots> \<le> (1 / 2) * 2 powi p"
    by (rule mult_right_mono[OF sb(4) less_imp_le[OF pp]])
  finally show "\<bar>pow2 k p - of_int a / of_int b\<bar> \<le> 2 powi p / 2" by simp
  show "pow2 k p < 2 powi 1024"
  proof (cases "k < 2 ^ 53")
    case True
    then have "(of_int k :: rat) < of_int (2 ^ 53)" by (simp only: of_int_less_iff)
    then have "(of_int k :: rat) < 2 powi 53" by simp
    then have "of_int k * 2 powi p < (2::rat) powi 53 * 2 powi p"
      using pp by (rule mult_strict_right_mono)
    also have "\<dots> = 2 powi (53 + p)" by (rule power_int_add[symmetric]) simp
    also have "\<dots> \<le> 2 powi 1024"
      by (rule power_int_increasing) (use fmt in simp_all)
    finally show ?thesis by (simp only: pow2_eq)
  next
    case False
    then have k: "k = 2 ^ 53" and p: "p \<le> 970" using fmt by auto
    have "(of_int k :: rat) = 2 powi 53" using k by simp
    then have "pow2 k p = 2 powi 53 * 2 powi p" by (simp only: pow2_eq)
    also have "\<dots> = 2 powi (53 + p)" by (rule power_int_add[symmetric]) simp
    also have "\<dots> < 2 powi 1024"
      by (rule power_int_strict_increasing) (use p in simp_all)
    finally show ?thesis .
  qed
qed

lemma to_double_overflow:
  assumes "0 < a" and "0 < b"
  shows "to_double a b = None \<longleftrightarrow> (2 ^ 53 - 1 / 2) * 2 powi 971 \<le> (of_int a / of_int b :: rat)"
proof -
  let ?x = "of_int a / of_int b :: rat"
  let ?e = "binade a b"
  define p where "p = max (?e - 52) (- 1074)"
  define k where "k = scaled a b p"
  define y where "y = ?x / 2 powi p"
  have pp: "(0::rat) < 2 powi p" by (simp add: zero_less_power_int)
  have td: "to_double a b = None \<longleftrightarrow> 972 \<le> p \<or> (971 \<le> p \<and> 2 ^ 53 \<le> k)"
    using assms(1) by (simp add: to_double_def Let_def p_def k_def)
  note sb = significand_bounds[OF assms p_def k_def]
  have near: "\<bar>of_int k - y\<bar> \<le> 1 / 2"
    using sb(4) by (simp only: y_def)
  have e1: "(2::rat) powi ?e \<le> ?x" and e2: "?x < 2 powi (?e + 1)"
    using binade_bounds[OF assms] by simp_all
  have xy: "?x = y * 2 powi p" using pp by (simp add: y_def)
  have c53: "(of_int (2 ^ 53) :: rat) = 2 ^ 53" "(of_int (2 ^ 53 - 1) :: rat) = 2 ^ 53 - 1"
    by simp_all
  have t1023: "(2::rat) powi 1023 \<le> (2 ^ 53 - 1 / 2) * 2 powi 971"
  proof -
    have "(2::rat) powi (52 + 971) = 2 powi 52 * 2 powi 971"
      by (rule power_int_add) simp
    then have "(2::rat) powi 1023 = 2 powi 52 * 2 powi 971"
      by simp
    also have "\<dots> \<le> (2 ^ 53 - 1 / 2) * 2 powi 971"
      by (rule mult_right_mono) (simp_all add: zero_less_power_int less_imp_le)
    finally show ?thesis .
  qed
  show ?thesis
  proof
    assume "to_double a b = None"
    then consider "972 \<le> p" | "p = 971" "2 ^ 53 \<le> k" using td by linarith
    then show "(2 ^ 53 - 1 / 2) * 2 powi 971 \<le> ?x"
    proof cases
      case 1
      then have "1024 \<le> ?e" using p_def by linarith
      then have "(2::rat) powi 1024 \<le> 2 powi ?e"
        by (rule power_int_increasing) simp
      moreover have "(2 ^ 53 - 1 / 2) * 2 powi 971 \<le> (2::rat) ^ 53 * 2 powi 971"
        by (rule mult_right_mono) (simp_all add: zero_less_power_int less_imp_le)
      moreover have "(2::rat) ^ 53 * 2 powi 971 = 2 powi 1024"
      proof -
        have "(2::rat) powi (53 + 971) = 2 powi 53 * 2 powi 971"
          by (rule power_int_add) simp
        then show ?thesis by simp
      qed
      ultimately show ?thesis using e1 by linarith
    next
      case 2
      have "(of_int (2 ^ 53) :: rat) \<le> of_int k" using 2(2) by (simp only: of_int_le_iff)
      then have "(2::rat) ^ 53 - 1 / 2 \<le> y" using near c53(1) by linarith
      then have "(2 ^ 53 - 1 / 2) * 2 powi p \<le> y * 2 powi p"
        by (rule mult_right_mono[OF _ less_imp_le[OF pp]])
      then show ?thesis unfolding xy 2(1) .
    qed
  next
    assume t: "(2 ^ 53 - 1 / 2) * 2 powi 971 \<le> ?x"
    have e: "1023 \<le> ?e"
    proof (rule ccontr)
      assume "\<not> 1023 \<le> ?e"
      then have "?e + 1 \<le> 1023" by simp
      then have "(2::rat) powi (?e + 1) \<le> 2 powi 1023"
        by (rule power_int_increasing) simp
      then show False using e2 t t1023 by linarith
    qed
    then have p971: "971 \<le> p" using p_def by linarith
    show "to_double a b = None"
    proof (cases "972 \<le> p")
      case True
      then show ?thesis using td by simp
    next
      case False
      then have p: "p = 971" using p971 by simp
      have "(2 ^ 53 - 1 / 2) * 2 powi p \<le> y * 2 powi p"
        using t unfolding xy p .
      then have y: "(2::rat) ^ 53 - 1 / 2 \<le> y"
        using pp by (simp add: mult_le_cancel_right)
      have "(of_int (2 ^ 53 - 1) :: rat) - 1 / 2 \<le> of_int k"
        using y near c53(2) by linarith
      then have lo: "2 ^ 53 - 1 \<le> k" by linarith
      have "k \<noteq> 2 ^ 53 - 1"
      proof
        assume k: "k = 2 ^ 53 - 1"
        have "(of_int k :: rat) = of_int (2 ^ 53 - 1)" by (simp only: k)
        then have "y \<le> of_int (2 ^ 53 - 1) + 1 / 2" using near by linarith
        then have "y = of_int (2 ^ 53 - 1) + 1 / 2" using y c53(2) by linarith
        then have "?x / 2 powi p = of_int (2 ^ 53 - 1) + 1 / 2" by (simp only: y_def)
        from scaled_tie[OF assms(2) this] have "k = 2 ^ 53" by (simp add: k_def)
        then show False using k by simp
      qed
      then have "2 ^ 53 \<le> k" using lo by linarith
      then show ?thesis using td p by simp
    qed
  qed
qed

lemma signed_double_overflow:
  assumes "0 < a" and "0 < b"
    and "(2 ^ 53 - 1 / 2) * 2 powi 971 \<le> (of_int a / of_int b :: rat)"
  shows "signed_double neg a b = (if neg then NegInf else PosInf)"
  using to_double_overflow[OF assms(1,2)] assms(3) by (simp add: signed_double_def)

lemma parseFloat_2e308_literal:
  "parseFloat ''2e308'' = signed_double False (2 * 10 ^ 308) 1"
  by (simp add: parseFloat_def trimStart_def is_ws_def unsigned_literal_def is_digit_def
      digits_val_def digit_val_def exponent_part_def Let_def)

lemma parseFloat_2e308: "parseFloat ''2e308'' = PosInf"
proof -
  have "signed_double False (2 * 10 ^ 308) 1 = (if False then NegInf else PosInf)"
    by (rule signed_double_overflow) (simp_all add: overflow_threshold)
  then show ?thesis
    by (simp only: parseFloat_2e308_literal if_False)
qed

subsection \<open>The loops, unfolded one line at a time\<close>

lemma at_index_hd: "at_index (x # xs) 0 = Some x"
  by (simp add: at_index_def)

lemma find_header_step:
  "find_header lines i =
     (if i < length lines then
        if header_test (lines ! i)
        then Inr (Some (map header_name (split comma (trim (lines ! i)))), int i)
        else find_header lines (i + 1)
      else Inr (None, - 1))"
  by (subst find_header.simps)
     (auto simp add: at_index_def header_test_def Let_def split: list.splits)

lemma build_row_eq:
  "length headers \<le> length values \<Longrightarrow>
   build_row headers values j row =
     Inr (convert_all (drop j headers) (drop j values) row)"
proof (induction headers "values" j row rule: build_row.induct)
  case (1 headers "values" j row)
  show ?case
  proof (cases "j < length headers")
    case True
    then have jv: "j < length values" using "1.prems" by simp
    have dh: "drop j headers = headers ! j # drop (Suc j) headers"
      using True by (simp add: Cons_nth_drop_Suc)
    have dv: "drop j values = values ! j # drop (Suc j) values"
      using jv by (simp add: Cons_nth_drop_Suc)
    show ?thesis
      using True jv "1.IH"[OF True, of "values ! j"] "1.prems"
      by (subst build_row.simps) (simp add: at_index_def dh dv convert_all_def)
  next
    case False
    then show ?thesis
      by (subst build_row.simps) (simp add: convert_all_def)
  qed
qed

lemma rows_loop_step:
  "rows_loop lines headers i data con =
     (if i < length lines then
        (case line_record headers (lines ! i) of
           Some row \<Rightarrow> rows_loop lines headers (i + 1) (data @ [row]) con
         | None \<Rightarrow>
             rows_loop lines headers (i + 1) data
               (if trim (lines ! i) = [] then con
                else if length (fields (lines ! i)) = length headers
                then con @ [WarnSkipSymbol (i + 1) (trim (lines ! i))]
                else con @ [WarnSkipColumnCount (i + 1) (length headers)
                              (length (fields (lines ! i))) (trim (lines ! i))]))
      else (Inr data, con))"
  by (subst rows_loop.simps)
     (simp add: at_index_def Let_def line_record_def fields_def build_row_eq)

lemma rows_loop_result:
  "fst (rows_loop lines headers i data con) =
     Inr (data @ List.map_filter (line_record headers) (drop i lines))"
proof (induction "length lines - i" arbitrary: i data con)
  case 0
  then show ?case
    by (subst rows_loop_step) (simp add: List.map_filter_simps)
next
  case (Suc n)
  then have lt: "i < length lines" and n: "n = length lines - (i + 1)"
    by simp_all
  have d: "drop i lines = lines ! i # drop (Suc i) lines"
    using lt by (simp add: Cons_nth_drop_Suc)
  show ?case
    using lt Suc.hyps(1)[OF n]
    by (subst rows_loop_step) (simp add: d List.map_filter_simps split: option.splits)
qed

lemma find_header_total: "\<exists>r. find_header lines i = Inr r"
proof (induction "length lines - i" arbitrary: i)
  case 0
  then show ?case by (subst find_header_step) simp
next
  case (Suc n)
  then have n: "n = length lines - (i + 1)" by simp
  show ?case
    using Suc.hyps(1)[OF n] by (subst find_header_step) simp
qed

lemma rows_loop_Inr:
  "\<exists>con'. rows_loop lines headers i data con =
            (Inr (data @ List.map_filter (line_record headers) (drop i lines)), con')"
  using rows_loop_result[of lines headers i data con]
  by (cases "rows_loop lines headers i data con") simp

lemma parseCsv_on_result:
  "fst (parseCsv_on con csvText) =
     (case find_header (split LF csvText) 0 of
        Inl e \<Rightarrow> Inl e
      | Inr (None, k) \<Rightarrow> Inr []
      | Inr (Some hs, k) \<Rightarrow>
          Inr (List.map_filter (line_record hs) (drop (nat (k + 1)) (split LF csvText))))"
proof (cases "find_header (split LF csvText) 0")
  case (Inl e)
  then show ?thesis by (simp add: parseCsv_on_def)
next
  case (Inr p)
  obtain headers k where p: "p = (headers, k)" by (cases p)
  show ?thesis
  proof (cases headers)
    case None
    then show ?thesis using Inr p by (simp add: parseCsv_on_def)
  next
    case (Some hs)
    obtain con' where
      "rows_loop (split LF csvText) hs (nat (k + 1)) [] (con @ [LogDetectedHeaders hs]) =
         (Inr ([] @ List.map_filter (line_record hs) (drop (nat (k + 1)) (split LF csvText))), con')"
      using rows_loop_Inr by blast
    then show ?thesis using Inr p Some by (simp add: parseCsv_on_def Let_def)
  qed
qed

lemma parseCsv_result:
  "parseCsv csvText =
     (case find_header (split LF csvText) 0 of
        Inl e \<Rightarrow> Inl e
      | Inr (None, k) \<Rightarrow> Inr []
      | Inr (Some hs, k) \<Rightarrow>
          Inr (List.map_filter (line_record hs) (drop (nat (k + 1)) (split LF csvText))))"
  by (simp add: parseCsv_def parseCsv_on_result)

subsection \<open>Records\<close>

lemma map_of_update: "map_of (update k v row) = (map_of row)(k \<mapsto> v)"
  by (induction row) (auto simp add: fun_eq_iff)

lemma keys_update: "fst ` set (update k v row) = insert k (fst ` set row)"
  by (induction row) auto

lemma distinct_update: "distinct (map fst row) \<Longrightarrow> distinct (map fst (update k v row))"
  by (induction row) (auto simp add: keys_update)

lemma get_set_property:
  "get_property (set_property row k v) name =
     (if name = k \<and> k \<noteq> ''__proto__'' then Some v else get_property row name)"
  by (simp add: get_property_def set_property_def map_of_update)

lemma keys_set_property:
  "fst ` set (set_property row k v) = fst ` set row \<union> ({k} - {''__proto__''})"
  by (auto simp add: set_property_def keys_update)

lemma distinct_set_property:
  "distinct (map fst row) \<Longrightarrow> distinct (map fst (set_property row k v))"
  by (simp add: set_property_def distinct_update)

lemma convert_all_Nil [simp]: "convert_all [] vs row = row" "convert_all hs [] row = row"
  by (simp_all add: convert_all_def)

lemma convert_all_Cons [simp]:
  "convert_all (h # hs) (v # vs) row = convert_all hs vs (set_property row h (convert h v))"
  by (simp add: convert_all_def)

lemma get_convert_all:
  "get_property (convert_all hs vs row) name =
     (case column_value hs vs name of
        None \<Rightarrow> get_property row name
      | Some v \<Rightarrow> if name = ''__proto__'' then get_property row name else Some (convert name v))"
proof (induction hs arbitrary: vs row)
  case Nil
  then show ?case by (simp add: column_value_def)
next
  case (Cons h hs)
  show ?case
  proof (cases vs)
    case Nil
    then show ?thesis by (simp add: column_value_def)
  next
    case (Cons v vs')
    show ?thesis
      unfolding Cons convert_all_Cons Cons.IH
      by (auto simp add: column_value_def get_set_property map_add_def split: option.splits)
  qed
qed

lemma keys_convert_all:
  "fst ` set (convert_all hs vs row) =
     fst ` set row \<union> (set (take (length vs) hs) - {''__proto__''})"
proof (induction hs arbitrary: vs row)
  case Nil
  then show ?case by simp
next
  case (Cons h hs)
  show ?case
  proof (cases vs)
    case Nil
    then show ?thesis by simp
  next
    case (Cons v vs')
    show ?thesis
      unfolding Cons convert_all_Cons Cons.IH keys_set_property
      by auto
  qed
qed

lemma distinct_convert_all:
  "distinct (map fst row) \<Longrightarrow> distinct (map fst (convert_all hs vs row))"
proof (induction hs arbitrary: vs row)
  case Nil
  then show ?case by simp
next
  case (Cons h hs)
  then show ?case
    by (cases vs) (simp_all add: distinct_set_property)
qed

subsection \<open>The scanner\<close>

lemma set_trim: "set (trim s) \<subseteq> set s"
proof -
  have "set (trim s) \<subseteq> set (dropWhile is_ws s)"
    unfolding trim_def using set_dropWhileD by fastforce
  then show ?thesis
    using set_dropWhileD by fastforce
qed

lemma tokenize_no_quote:
  "\<forall>v \<in> set vals. dquote \<notin> set v \<Longrightarrow> dquote \<notin> set cur \<Longrightarrow>
   v \<in> set (tokenize s vals cur q) \<Longrightarrow> dquote \<notin> set v"
proof (induction s arbitrary: vals cur q)
  case Nil
  then show ?case using set_trim by fastforce
next
  case (Cons c s)
  show ?case
  proof (cases "c = dquote")
    case True
    then show ?thesis using Cons.IH[OF Cons.prems(1,2)] Cons.prems(3) by simp
  next
    case nq: False
    show ?thesis
    proof (cases "c = comma \<and> \<not> q")
      case True
      have a: "\<forall>v \<in> set (vals @ [trim cur]). dquote \<notin> set v"
        using Cons.prems(1,2) set_trim by fastforce
      show ?thesis
        using Cons.IH[OF a, of "[]" q] Cons.prems(3) nq True by simp
    next
      case False
      have b: "dquote \<notin> set (cur @ [c])" using Cons.prems(2) nq by simp
      show ?thesis
        using Cons.IH[OF Cons.prems(1) b, of q] Cons.prems(3) nq False by auto
    qed
  qed
qed

lemma tokenize_in_quotes:
  "dquote \<notin> set body \<Longrightarrow>
   tokenize (body @ dquote # rest) vals cur True = tokenize rest vals (cur @ body) False"
  by (induction body arbitrary: cur) auto

lemma tokenize_unquoted:
  "dquote \<notin> set s \<Longrightarrow>
   tokenize s vals cur False =
     vals @ trim (cur @ hd (split comma s)) # map trim (tl (split comma s))"
proof (induction s arbitrary: vals cur)
  case Nil
  then show ?case by simp
next
  case (Cons c s)
  obtain q qs where q: "split comma s = q # qs"
    by (cases "split comma s") simp_all
  show ?case
    using Cons q by auto
qed

lemma fields_no_quote: "v \<in> set (fields l) \<Longrightarrow> dquote \<notin> set v"
  unfolding fields_def using tokenize_no_quote[of "[]" "[]"] by simp

lemma replace_edge_quotes_from_id:
  "dquote \<notin> set s \<Longrightarrow> replace_edge_quotes_from s n i = s"
  by (induction s arbitrary: i) auto

lemma replace_edge_quotes_id: "dquote \<notin> set s \<Longrightarrow> replace_edge_quotes s = s"
  by (simp add: replace_edge_quotes_def replace_edge_quotes_from_id)

subsection \<open>Trimming and splitting\<close>

lemma trim_eq: "trim s = trimEnd (trimStart s)"
  by (simp add: trim_def trimEnd_def trimStart_def)

lemma split_Cons_other:
  "c \<noteq> d \<Longrightarrow> split d (c # s) = (c # hd (split d s)) # tl (split d s)"
  by (cases "split d s") simp_all

lemma split_snoc_other:
  "c \<noteq> d \<Longrightarrow> split d (s @ [c]) = butlast (split d s) @ [last (split d s) @ [c]]"
proof (induction s)
  case Nil
  then show ?case by simp
next
  case (Cons a s)
  then show ?case
    by (cases "split d s"; cases "split d (s @ [c])") (auto split: list.splits if_splits)
qed

lemma is_ws_not_comma: "is_ws c \<Longrightarrow> c \<noteq> comma"
  by (auto simp add: is_ws_def comma_def)

lemma trimEnd_snoc: "trimEnd (s @ [c]) = (if is_ws c then trimEnd s else s @ [c])"
  by (simp add: trimEnd_def)

lemma trimStart_Cons: "trimStart (c # s) = (if is_ws c then trimStart s else c # s)"
  by (simp add: trimStart_def)

lemma trimStart_snoc_ws:
  assumes "is_ws c"
  shows "trimEnd (trimStart (s @ [c])) = trimEnd (trimStart s)"
proof (cases "\<forall>x\<in>set s. is_ws x")
  case True
  have a: "dropWhile is_ws s = []"
    using True by simp
  have b: "dropWhile is_ws (s @ [c]) = []"
    using True assms by simp
  show ?thesis
    unfolding trimStart_def a b ..
next
  case False
  then have "dropWhile is_ws (s @ [c]) = dropWhile is_ws s @ [c]"
    by (simp add: dropWhile_append)
  then show ?thesis
    using assms by (simp add: trimStart_def trimEnd_def)
qed

lemma trim_Cons_ws: "is_ws c \<Longrightarrow> trim (c # s) = trim s"
  by (simp add: trim_def)

lemma trim_snoc_ws: "is_ws c \<Longrightarrow> trim (s @ [c]) = trim s"
  by (simp add: trim_eq trimStart_snoc_ws)

lemma map_trim_split_Cons_ws:
  assumes "is_ws c"
  shows "map trim (split comma (c # s)) = map trim (split comma s)"
proof -
  obtain p ps where sp: "split comma s = p # ps"
    by (cases "split comma s") simp_all
  show ?thesis
    using is_ws_not_comma[OF assms] by (simp add: sp trim_Cons_ws[OF assms])
qed

lemma map_trim_split_snoc_ws:
  assumes "is_ws c"
  shows "map trim (split comma (s @ [c])) = map trim (split comma s)"
proof -
  have "split comma s = butlast (split comma s) @ [last (split comma s)]"
    by simp
  then have "map trim (split comma s) =
      map trim (butlast (split comma s)) @ [trim (last (split comma s))]"
    by (metis list.simps(8,9) map_append)
  then show ?thesis
    using is_ws_not_comma[OF assms]
    by (simp add: split_snoc_other trim_snoc_ws[OF assms])
qed

lemma map_trim_split_trimStart:
  "map trim (split comma (trimStart s)) = map trim (split comma s)"
proof (induction s)
  case Nil
  then show ?case by (simp add: trimStart_def)
next
  case (Cons c s)
  then show ?case
    by (cases "is_ws c") (simp_all add: trimStart_Cons map_trim_split_Cons_ws del: split.simps)
qed

lemma map_trim_split_trimEnd:
  "map trim (split comma (trimEnd s)) = map trim (split comma s)"
proof (induction s rule: rev_induct)
  case Nil
  then show ?case by (simp add: trimEnd_def)
next
  case (snoc c s)
  then show ?case
    by (cases "is_ws c") (simp_all add: trimEnd_snoc map_trim_split_snoc_ws del: split.simps)
qed

lemma map_trim_split_trim:
  "map trim (split comma (trim l)) = map trim (split comma l)"
  by (simp add: trim_eq map_trim_split_trimEnd map_trim_split_trimStart)

lemma lower_ws_not_in_symbol: "is_ws c \<Longrightarrow> lower_char c \<notin> set ''symbol''"
  by (auto simp add: is_ws_def lower_char_def Let_def)

lemma includes_Cons_other:
  "c \<notin> set sub \<Longrightarrow> sub \<noteq> [] \<Longrightarrow> str_includes (c # s) sub = str_includes s sub"
  by (cases sub) auto

lemma starts_with_snoc_other:
  "c \<notin> set sub \<Longrightarrow> starts_with (s @ [c]) sub = starts_with s sub"
proof (induction s arbitrary: sub)
  case Nil
  then show ?case by (cases sub) (auto simp add: neq_Nil_conv)
next
  case (Cons a s)
  then show ?case by (cases sub) auto
qed

lemma starts_with_Nil: "starts_with [] sub = (sub = [])"
  by (cases sub) simp_all

lemma includes_snoc_other:
  "c \<notin> set sub \<Longrightarrow> sub \<noteq> [] \<Longrightarrow> str_includes (s @ [c]) sub = str_includes s sub"
proof (induction s)
  case Nil
  then show ?case by (cases sub) (auto simp add: starts_with_Nil)
next
  case (Cons a s)
  then show ?case
    using starts_with_snoc_other[of c sub "a # s"] by simp
qed

lemma includes_symbol_trimStart:
  "str_includes (toLowerCase (trimStart p)) ''symbol'' = str_includes (toLowerCase p) ''symbol''"
proof (induction p)
  case Nil
  then show ?case by (simp add: trimStart_def)
next
  case (Cons c p)
  show ?case
  proof (cases "is_ws c")
    case True
    have "str_includes (lower_char c # toLowerCase p) ''symbol'' = str_includes (toLowerCase p) ''symbol''"
      by (rule includes_Cons_other) (use lower_ws_not_in_symbol[OF True] in simp_all)
    then show ?thesis
      using True Cons by (simp add: trimStart_Cons toLowerCase_def)
  next
    case False
    then show ?thesis by (simp add: trimStart_Cons)
  qed
qed

lemma includes_symbol_trimEnd:
  "str_includes (toLowerCase (trimEnd p)) ''symbol'' = str_includes (toLowerCase p) ''symbol''"
proof (induction p rule: rev_induct)
  case Nil
  then show ?case by (simp add: trimEnd_def)
next
  case (snoc c p)
  show ?case
  proof (cases "is_ws c")
    case True
    have "str_includes (toLowerCase p @ [lower_char c]) ''symbol'' = str_includes (toLowerCase p) ''symbol''"
      by (rule includes_snoc_other) (use lower_ws_not_in_symbol[OF True] in simp_all)
    then show ?thesis
      using True snoc by (simp add: trimEnd_snoc toLowerCase_def)
  next
    case False
    then show ?thesis by (simp add: trimEnd_snoc)
  qed
qed

lemma includes_symbol_trim:
  "str_includes (toLowerCase (trim p)) ''symbol'' = str_includes (toLowerCase p) ''symbol''"
  by (simp add: trim_eq includes_symbol_trimEnd includes_symbol_trimStart)

lemma blank_iff_trim: "blank s \<longleftrightarrow> trim s = []"
proof (cases "dropWhile is_ws s")
  case Nil
  then have "\<forall>x\<in>set s. is_ws x"
    by simp
  then show ?thesis
    unfolding blank_def trim_def Nil list_all_iff by simp
next
  case (Cons c cs)
  then have "\<not> is_ws c"
    using hd_dropWhile[of is_ws s] by simp
  moreover have "\<not> blank s"
  proof -
    have "dropWhile is_ws s \<noteq> []"
      unfolding Cons by simp
    then show ?thesis
      by (simp add: blank_def list_all_iff)
  qed
  ultimately show ?thesis
    using Cons by (auto simp add: trim_def dropWhile_eq_Nil_conv)
qed

subsection \<open>The header line\<close>

lemma find_filter_conv:
  "List.find P xs = (case filter P xs of [] \<Rightarrow> None | x # _ \<Rightarrow> Some x)"
  by (induction xs) auto

lemma first_part_trim_invariant:
  "map trim xs = map trim ys \<Longrightarrow>
   (case filter (\<lambda>part. length (trim part) > 0) xs of
      [] \<Rightarrow> False
    | part # _ \<Rightarrow> str_includes (toLowerCase part) ''symbol'') =
   (case filter (\<lambda>p. \<not> blank p) ys of
      [] \<Rightarrow> False
    | p # _ \<Rightarrow> str_includes (toLowerCase p) ''symbol'')"
proof (induction xs arbitrary: ys)
  case Nil
  then show ?case by simp
next
  case (Cons x xs)
  then obtain y ys' where ys: "ys = y # ys'" and t: "trim x = trim y"
    and r: "map trim xs = map trim ys'"
    by (cases ys) auto
  have inc: "str_includes (toLowerCase x) ''symbol'' = str_includes (toLowerCase y) ''symbol''"
    using includes_symbol_trim[of x] includes_symbol_trim[of y] t by simp
  show ?case
    using Cons.IH[OF r] inc t by (simp add: ys blank_iff_trim)
qed

lemma header_test_iff: "header_test l \<longleftrightarrow> is_header_line l"
proof -
  have "(case filter (\<lambda>part. length (trim part) > 0) (split comma (trim l)) of
           [] \<Rightarrow> False
         | part # _ \<Rightarrow> str_includes (toLowerCase part) ''symbol'') =
        (case filter (\<lambda>p. \<not> blank p) (split comma l) of
           [] \<Rightarrow> False
         | p # _ \<Rightarrow> str_includes (toLowerCase p) ''symbol'')"
    by (rule first_part_trim_invariant) (rule map_trim_split_trim)
  then show ?thesis
    unfolding header_test_def is_header_line_def first_token_def find_filter_conv
    by (auto simp add: blank_iff_trim split: list.splits)
qed

lemma replace_edge_quotes_from_inner:
  "0 < i \<Longrightarrow> n = i + length s \<Longrightarrow>
   replace_edge_quotes_from s n i = (if s \<noteq> [] \<and> last s = dquote then butlast s else s)"
proof (induction s arbitrary: i)
  case Nil
  then show ?case by simp
next
  case (Cons c s)
  have "replace_edge_quotes_from s n (Suc i) =
          (if s \<noteq> [] \<and> last s = dquote then butlast s else s)"
    using Cons.IH[of "Suc i"] Cons.prems by simp
  then show ?case
    using Cons.prems by auto
qed

lemma replace_edge_quotes_eq: "replace_edge_quotes s = strip_quote_pair s"
proof (cases s)
  case Nil
  then show ?thesis by (simp add: replace_edge_quotes_def strip_quote_pair_def)
next
  case (Cons c cs)
  have "replace_edge_quotes_from cs (Suc (length cs)) (Suc 0) =
          (if cs \<noteq> [] \<and> last cs = dquote then butlast cs else cs)"
    by (rule replace_edge_quotes_from_inner) simp_all
  then show ?thesis
    by (auto simp add: Cons replace_edge_quotes_def strip_quote_pair_def)
qed

lemma header_name_eq: "header_name tok = normalize_header tok"
  by (simp add: header_name_def normalize_header_def replace_spaces_def
      replace_edge_quotes_eq space_def underscore_def)

lemma header_row_eq:
  "map header_name (split comma (trim l)) = map normalize_header (split comma l)"
proof -
  have "map header_name (split comma (trim l)) =
          map (\<lambda>t. replace_spaces (replace_edge_quotes t)) (map trim (split comma (trim l)))"
    by (simp add: header_name_def)
  also have "\<dots> = map (\<lambda>t. replace_spaces (replace_edge_quotes t)) (map trim (split comma l))"
    by (simp only: map_trim_split_trim)
  also have "\<dots> = map normalize_header (split comma l)"
    using header_name_eq by (simp add: header_name_def)
  finally show ?thesis .
qed

lemma find_header_first:
  "i \<le> n \<Longrightarrow> n < length lines \<Longrightarrow> is_header_line (lines ! n) \<Longrightarrow>
   (\<And>j. i \<le> j \<Longrightarrow> j < n \<Longrightarrow> \<not> is_header_line (lines ! j)) \<Longrightarrow>
   find_header lines i = Inr (Some (map normalize_header (split comma (lines ! n))), int n)"
proof (induction "n - i" arbitrary: i)
  case 0
  then have "i = n" by simp
  then show ?case
    using "0.prems" by (subst find_header_step) (simp add: header_test_iff header_row_eq)
next
  case (Suc d)
  then have lt: "i < n" and d: "d = n - (i + 1)" by simp_all
  have no: "\<not> is_header_line (lines ! i)"
    using Suc.prems(4)[of i] lt by simp
  have "find_header lines (i + 1) =
          Inr (Some (map normalize_header (split comma (lines ! n))), int n)"
    using Suc.hyps(1)[OF d] lt Suc.prems by simp
  then show ?case
    using lt Suc.prems(2) no by (subst find_header_step) (simp add: header_test_iff)
qed

lemma find_header_none:
  "(\<And>j. i \<le> j \<Longrightarrow> j < length lines \<Longrightarrow> \<not> is_header_line (lines ! j)) \<Longrightarrow>
   find_header lines i = Inr (None, - 1)"
proof (induction "length lines - i" arbitrary: i)
  case 0
  then show ?case by (subst find_header_step) simp
next
  case (Suc d)
  then have lt: "i < length lines" and d: "d = length lines - (i + 1)" by simp_all
  have "find_header lines (i + 1) = Inr (None, - 1)"
    using Suc.hyps(1)[OF d] Suc.prems by simp
  then show ?case
    using lt Suc.prems[of i] by (subst find_header_step) (simp add: header_test_iff)
qed

lemma find_header_SomeD:
  assumes "find_header lines 0 = Inr (Some hs, k)"
  shows "\<exists>n. k = int n \<and> n < length lines \<and> is_header_line (lines ! n) \<and>
             (\<forall>j<n. \<not> is_header_line (lines ! j)) \<and>
             hs = map normalize_header (split comma (lines ! n))"
proof (cases "\<exists>n<length lines. is_header_line (lines ! n)")
  case True
  define n where "n = (LEAST n. n < length lines \<and> is_header_line (lines ! n))"
  have n: "n < length lines \<and> is_header_line (lines ! n)"
    unfolding n_def using True by (metis (mono_tags, lifting) LeastI)
  have least: "\<And>j. j < n \<Longrightarrow> \<not> is_header_line (lines ! j)"
  proof
    fix j assume j: "j < n" and h: "is_header_line (lines ! j)"
    have "j < length lines" using j n by simp
    then have "n \<le> j" unfolding n_def using h by (simp add: Least_le)
    then show False using j by simp
  qed
  have "find_header lines 0 =
          Inr (Some (map normalize_header (split comma (lines ! n))), int n)"
    using n least by (intro find_header_first) simp_all
  then show ?thesis
    using assms n least by auto
next
  case False
  then have "find_header lines 0 = Inr (None, - 1)"
    by (intro find_header_none) auto
  then show ?thesis using assms by simp
qed

subsection \<open>What a record holds\<close>

lemma convert_no_quote:
  "dquote \<notin> set v \<Longrightarrow> convert h v = stored_value h v"
  by (simp add: convert_def stored_value_def replace_edge_quotes_id Let_def)

lemma column_value_in_set: "column_value hs vs name = Some v \<Longrightarrow> v \<in> set vs"
  unfolding column_value_def
  by (metis map_of_SomeD set_rev set_zip_rightD)

lemma get_convert_all_fields:
  "get_property (convert_all hs (fields l) []) name =
     (if name = ''__proto__'' then None
      else map_option (stored_value name) (column_value hs (fields l) name))"
proof (cases "column_value hs (fields l) name")
  case None
  then show ?thesis
    by (simp add: get_convert_all) (simp add: get_property_def)
next
  case (Some v)
  then have "dquote \<notin> set v"
    using column_value_in_set fields_no_quote by blast
  then show ?thesis
    using Some by (simp add: get_convert_all convert_no_quote) (simp add: get_property_def)
qed

lemma map_filter_set:
  "r \<in> set (List.map_filter f xs) \<longleftrightarrow> (\<exists>x \<in> set xs. f x = Some r)"
  by (induction xs) (auto simp add: List.map_filter_simps split: option.splits)

lemma parseCsv_record:
  assumes "parseCsv t = Inr rs" and "r \<in> set rs"
  shows "\<exists>hs k l. find_header (split LF t) 0 = Inr (Some hs, k) \<and>
           l \<in> set (drop (nat (k + 1)) (split LF t)) \<and> line_record hs l = Some r"
proof -
  obtain p where p: "find_header (split LF t) 0 = Inr p"
    using find_header_total by blast
  obtain headers k where pk: "p = (headers, k)" by (cases p)
  show ?thesis
  proof (cases headers)
    case None
    then show ?thesis using assms p pk by (simp add: parseCsv_result)
  next
    case (Some hs)
    then have "rs = List.map_filter (line_record hs) (drop (nat (k + 1)) (split LF t))"
      using assms(1) p pk by (simp add: parseCsv_result)
    then show ?thesis
      using assms(2) p pk Some by (auto simp add: map_filter_set)
  qed
qed

lemma has_symbol_fields:
  "has_symbol (convert_all hs (fields l) []) \<longleftrightarrow> symbol_bearing hs l"
  by (cases "column_value hs (fields l) ''Symbol''")
     (simp_all add: has_symbol_def symbol_bearing_def get_convert_all_fields stored_value_def)

lemma fields_blank:
  assumes "blank l"
  shows "fields l = [[]]"
proof -
  have t: "trim l = []"
    using assms by (simp add: blank_iff_trim)
  have "trim [] = []"
    by (simp add: trim_def)
  then show ?thesis
    unfolding fields_def t by simp
qed

lemma blank_not_symbol_bearing: "blank l \<Longrightarrow> \<not> symbol_bearing hs l"
proof
  assume b: "blank l" and s: "symbol_bearing hs l"
  then obtain v where v: "column_value hs (fields l) ''Symbol'' = Some v" "v \<noteq> []"
    by (auto simp add: symbol_bearing_def split: option.splits)
  then have "v \<in> set (fields l)"
    using column_value_in_set by blast
  then show False
    using v(2) b by (simp add: fields_blank)
qed

lemma line_record_eq:
  "line_record hs l = (if data_row hs l then Some (convert_all hs (fields l) []) else None)"
  using blank_not_symbol_bearing[of l hs]
  by (auto simp add: line_record_def data_row_def well_formed_def has_symbol_fields
      blank_iff_trim)



lemma parseCsv_header:
  assumes "n < length (split LF t)" and "is_header_line (split LF t ! n)"
    and "\<forall>j<n. \<not> is_header_line (split LF t ! j)"
  shows "find_header (split LF t) 0 = Inr (Some (header_row (split LF t ! n)), int n)"
    and "parseCsv t =
           Inr (List.map_filter (line_record (header_row (split LF t ! n)))
                  (drop (Suc n) (split LF t)))"
proof -
  show h: "find_header (split LF t) 0 = Inr (Some (header_row (split LF t ! n)), int n)"
    unfolding header_row_def using assms by (intro find_header_first) simp_all
  show "parseCsv t =
           Inr (List.map_filter (line_record (header_row (split LF t ! n)))
                  (drop (Suc n) (split LF t)))"
    by (simp add: parseCsv_result h nat_add_distrib)
qed

lemma parseCsv_record_of:
  assumes "find_header (split LF t) 0 = Inr (Some hs, k)"
    and "parseCsv t = Inr rs" and "r \<in> set rs"
  shows "\<exists>l \<in> set (drop (nat (k + 1)) (split LF t)). data_row hs l \<and> r = convert_all hs (fields l) []"
proof -
  have "rs = List.map_filter (line_record hs) (drop (nat (k + 1)) (split LF t))"
    using assms(1,2) by (simp add: parseCsv_result)
  then obtain l where "l \<in> set (drop (nat (k + 1)) (split LF t))" "line_record hs l = Some r"
    using assms(3) by (auto simp add: map_filter_set)
  then show ?thesis
    by (auto simp add: line_record_eq split: if_splits)
qed

lemma record_keys:
  assumes "find_header (split LF t) 0 = Inr (Some hs, k)"
    and "parseCsv t = Inr rs" and "r \<in> set rs"
  shows "fst ` set r = set hs - {''__proto__''}" and "distinct (map fst r)"
proof -
  obtain l where l: "data_row hs l" and r: "r = convert_all hs (fields l) []"
    using parseCsv_record_of[OF assms] by blast
  have len: "length (fields l) = length hs"
    using l by (simp add: data_row_def well_formed_def)
  show "fst ` set r = set hs - {''__proto__''}"
    unfolding r keys_convert_all len by simp
  show "distinct (map fst r)"
    unfolding r by (rule distinct_convert_all) simp
qed

section \<open>The properties of the specification\<close>

text \<open>
  C4. The parser is total: for every input text, whatever it holds (nothing, no line
  feed, quotes that do not balance), a call raises no exception and returns a sequence
  of records, which may be empty. The loops of the model are total functions, and no
  read of an array that the parser makes is past its end.
\<close>

theorem parse_total: "\<exists>rs con'. parseCsv_on con t = (Inr rs, con') \<and> parseCsv t = Inr rs"
proof -
  obtain p where p: "find_header (split LF t) 0 = Inr p"
    using find_header_total by blast
  have "\<exists>rs. fst (parseCsv_on con t) = Inr rs \<and> parseCsv t = Inr rs"
    unfolding parseCsv_result parseCsv_on_result p
    by (cases p) (simp split: option.splits)
  then obtain rs where rs: "fst (parseCsv_on con t) = Inr rs" "parseCsv t = Inr rs"
    by blast
  then have "parseCsv_on con t = (Inr rs, snd (parseCsv_on con t))"
    by (metis prod.collapse)
  then show ?thesis
    using rs(2) by blast
qed

theorem parse_total_witness:
  \<open>\<exists>rs con'. parseCsv_on [] ''Symbol,Name\<newline>"A,B\<newline>x,"y'' = (Inr rs, con') \<and>
     parseCsv ''Symbol,Name\<newline>"A,B\<newline>x,"y'' = Inr rs\<close>
  by (rule parse_total)

text \<open>
  C9. The parser is deterministic: the records a call returns depend on the text alone.
  The console is the only state a call touches, and it only writes to it: whatever the
  console holds before the call, the records are those of a call on an empty console,
  and a second call on the same text, made after the first, returns the same records.
\<close>

theorem parse_deterministic:
  "fst (parseCsv_on con t) = parseCsv t \<and>
   fst (parseCsv_on (snd (parseCsv_on con t)) t) = fst (parseCsv_on con t)"
  by (simp add: parseCsv_def parseCsv_on_result)

theorem parse_deterministic_witness:
  "fst (parseCsv_on [WarnNoHeaderRow] ''Symbol\<newline>A'') = parseCsv ''Symbol\<newline>A'' \<and>
   fst (parseCsv_on (snd (parseCsv_on [WarnNoHeaderRow] ''Symbol\<newline>A'')) ''Symbol\<newline>A'') =
     fst (parseCsv_on [WarnNoHeaderRow] ''Symbol\<newline>A'')"
  by (rule parse_deterministic)

text \<open>
  C6. A comma inside a quoted field is not a separator: the scanner appends the text
  between two double quotes to the current field as it is, commas included. For the
  header line \<^verbatim>\<open>Symbol,Name,Price\<close> and the one data line \<^verbatim>\<open>"AAA","Foo, Inc.",100\<close>
  the parser returns exactly one record, and its \<^verbatim>\<open>Name\<close> field is the string
  \<^verbatim>\<open>Foo, Inc.\<close>.
\<close>

theorem quoted_comma_preserved:
  \<open>(dquote \<notin> set body \<longrightarrow>
      tokenize (dquote # body @ dquote # rest) vals cur False =
        tokenize rest vals (cur @ body) False) \<and>
   (\<exists>r. parseCsv ''Symbol,Name,Price\<newline>"AAA","Foo, Inc.",100'' = Inr [r] \<and>
        get_property r ''Name'' = Some (Str ''Foo, Inc.''))\<close>
proof (intro conjI impI)
  assume "dquote \<notin> set body"
  then show "tokenize (dquote # body @ dquote # rest) vals cur False =
        tokenize rest vals (cur @ body) False"
    by (simp add: tokenize_in_quotes)
next
  have \<open>parseCsv ''Symbol,Name,Price\<newline>"AAA","Foo, Inc.",100'' =
          Inr [[(''Symbol'', Str ''AAA''), (''Name'', Str ''Foo, Inc.''), (''Price'', Str ''100'')]]\<close>
    by code_simp
  then show \<open>\<exists>r. parseCsv ''Symbol,Name,Price\<newline>"AAA","Foo, Inc.",100'' = Inr [r] \<and>
        get_property r ''Name'' = Some (Str ''Foo, Inc.'')\<close>
    by (simp add: get_property_def)
qed

theorem quoted_comma_preserved_witness:
  \<open>tokenize ''"Foo, Inc.",100'' [''AAA''] [] False = tokenize '',100'' [''AAA''] ''Foo, Inc.'' False \<and>
   tokenize '',100'' [''AAA''] ''Foo, Inc.'' False = [''AAA'', ''Foo, Inc.'', ''100'']\<close>
proof -
  have d: "dquote \<notin> set ''Foo, Inc.''"
    by code_simp
  have e: "tokenize '',100'' [''AAA''] ''Foo, Inc.'' False = [''AAA'', ''Foo, Inc.'', ''100'']"
    by code_simp
  have s: \<open>''"Foo, Inc.",100'' = dquote # ''Foo, Inc.'' @ dquote # '',100''\<close>
    by code_simp
  have "tokenize (dquote # ''Foo, Inc.'' @ dquote # '',100'') [''AAA''] [] False =
          tokenize '',100'' [''AAA''] ([] @ ''Foo, Inc.'') False"
    by (rule quoted_comma_preserved[of "''Foo, Inc.''" "'',100''" "[''AAA'']" "[]",
          THEN conjunct1, THEN mp, OF d])
  then have \<open>tokenize ''"Foo, Inc.",100'' [''AAA''] [] False =
          tokenize '',100'' [''AAA''] ''Foo, Inc.'' False\<close>
    unfolding s[symmetric] by simp
  then show ?thesis
    using e by (intro conjI)
qed

text \<open>
  C10. No string field of a record that the parser returns holds a double quote: the
  scanner spends every double quote on its flag, so no value it reads holds one, and
  removing the quotes at the ends of a value afterwards leaves the value as it is.
\<close>

theorem no_quote_in_fields:
  "(parseCsv t = Inr rs \<and> r \<in> set rs \<and> (name, Str s) \<in> set r \<longrightarrow> dquote \<notin> set s) \<and>
   (v \<in> set (tokenize line [] [] False) \<longrightarrow> dquote \<notin> set v \<and> replace_edge_quotes v = v)"
proof (intro conjI impI)
  assume a: "parseCsv t = Inr rs \<and> r \<in> set rs \<and> (name, Str s) \<in> set r"
  then obtain hs k l where lr: "line_record hs l = Some r"
    using parseCsv_record by blast
  then have r: "r = convert_all hs (fields l) []"
    by (simp add: line_record_def split: if_splits)
  have d: "distinct (map fst r)"
    unfolding r by (rule distinct_convert_all) simp
  then have g: "get_property r name = Some (Str s)"
    using a by (simp add: get_property_def)
  then obtain v where v: "column_value hs (fields l) name = Some v" and sv: "stored_value name v = Str s"
    unfolding r get_convert_all_fields by (auto split: if_splits)
  have "s = v"
    using sv by (auto simp add: stored_value_def split: if_splits)
  then show "dquote \<notin> set s"
    using v column_value_in_set fields_no_quote by blast
next
  assume v: "v \<in> set (tokenize line [] [] False)"
  then show "dquote \<notin> set v"
    using tokenize_no_quote[of "[]" "[]" v line False] by simp
  then show "replace_edge_quotes v = v"
    by (rule replace_edge_quotes_id)
qed

theorem no_quote_in_fields_witness:
  \<open>parseCsv ''Symbol,Name\<newline>"A","B ""x"" c"'' =
     Inr [[(''Symbol'', Str ''A''), (''Name'', Str ''B x c'')]] \<and>
   dquote \<notin> set ''B x c'' \<and>
   ''B x c'' \<in> set (tokenize ''"A","B ""x"" c"'' [] [] False) \<and>
   replace_edge_quotes ''B x c'' = ''B x c''\<close>
proof -
  have p: \<open>parseCsv ''Symbol,Name\<newline>"A","B ""x"" c"'' =
             Inr [[(''Symbol'', Str ''A''), (''Name'', Str ''B x c'')]]\<close>
    by code_simp
  have v: \<open>''B x c'' \<in> set (tokenize ''"A","B ""x"" c"'' [] [] False)\<close>
    by code_simp
  show ?thesis
    using p v
      no_quote_in_fields[of \<open>''Symbol,Name\<newline>"A","B ""x"" c"''\<close>
        "[[(''Symbol'', Str ''A''), (''Name'', Str ''B x c'')]]"
        "[(''Symbol'', Str ''A''), (''Name'', Str ''B x c'')]" "''Name''" "''B x c''"
        "''B x c''" \<open>''"A","B ""x"" c"''\<close>]
    by simp
qed

text \<open>
  C7. The header line is the first line that is not blank and whose first non-empty
  token, of those the commas separate, contains \<^verbatim>\<open>symbol\<close> whatever the case of its
  letters: the loop stops at a line exactly when it is the first such line, and a token
  such as \<^verbatim>\<open>Ticker Symbol Code\<close> qualifies. When no line of the text is such a line,
  the loop finds no header and the parser returns the empty sequence.
\<close>

theorem header_detection:
  "(n < length (split LF t) \<and> is_header_line (split LF t ! n) \<and>
      (\<forall>j<n. \<not> is_header_line (split LF t ! j))
    \<longrightarrow> (\<exists>hs. find_header (split LF t) 0 = Inr (Some hs, int n))) \<and>
   (find_header (split LF t) 0 = Inr (Some hs', k)
    \<longrightarrow> 0 \<le> k \<and> nat k < length (split LF t) \<and> is_header_line (split LF t ! nat k) \<and>
        (\<forall>j<nat k. \<not> is_header_line (split LF t ! j))) \<and>
   ((\<forall>l \<in> set (split LF t). \<not> is_header_line l)
    \<longrightarrow> find_header (split LF t) 0 = Inr (None, - 1) \<and> parseCsv t = Inr []) \<and>
   is_header_line ''Ticker Symbol Code''"
proof (intro conjI impI)
  assume "n < length (split LF t) \<and> is_header_line (split LF t ! n) \<and>
      (\<forall>j<n. \<not> is_header_line (split LF t ! j))"
  then show "\<exists>hs. find_header (split LF t) 0 = Inr (Some hs, int n)"
    using parseCsv_header(1) by blast
next
  assume a: "find_header (split LF t) 0 = Inr (Some hs', k)"
  from find_header_SomeD[OF a] obtain m where m: "k = int m" "m < length (split LF t)"
    "is_header_line (split LF t ! m)" "\<forall>j<m. \<not> is_header_line (split LF t ! j)"
    by blast
  show "0 \<le> k" using m by simp
  show "nat k < length (split LF t)" using m by simp
  show "is_header_line (split LF t ! nat k)" using m by simp
  show "\<forall>j<nat k. \<not> is_header_line (split LF t ! j)" using m by simp
next
  assume a: "\<forall>l \<in> set (split LF t). \<not> is_header_line l"
  show n: "find_header (split LF t) 0 = Inr (None, - 1)"
    using a by (intro find_header_none) simp
  show "parseCsv t = Inr []"
    by (simp add: parseCsv_result n)
next
  show "is_header_line ''Ticker Symbol Code''"
    by code_simp
qed

theorem header_detection_witness:
  "find_header (split LF ''junk,1\<newline>\<newline>Ticker Symbol Code,Name\<newline>A,B'') 0 =
     Inr (Some [''Ticker_Symbol_Code'', ''Name''], 2) \<and>
   is_header_line (split LF ''junk,1\<newline>\<newline>Ticker Symbol Code,Name\<newline>A,B'' ! 2) \<and>
   \<not> is_header_line (split LF ''junk,1\<newline>\<newline>Ticker Symbol Code,Name\<newline>A,B'' ! 0) \<and>
   \<not> is_header_line (split LF ''junk,1\<newline>\<newline>Ticker Symbol Code,Name\<newline>A,B'' ! 1) \<and>
   parseCsv ''Name,Price\<newline>Foo,1'' = Inr []"
proof -
  let ?t = "''junk,1\<newline>\<newline>Ticker Symbol Code,Name\<newline>A,B''"
  have f: "find_header (split LF ?t) 0 = Inr (Some [''Ticker_Symbol_Code'', ''Name''], 2)"
    by code_simp
  have first: "is_header_line (split LF ?t ! nat 2) \<and>
      (\<forall>j<nat 2. \<not> is_header_line (split LF ?t ! j))"
    using header_detection[of 0 ?t "[''Ticker_Symbol_Code'', ''Name'']" 2] f by blast
  have none: "\<forall>l \<in> set (split LF ''Name,Price\<newline>Foo,1''). \<not> is_header_line l"
    by code_simp
  have empty: "parseCsv ''Name,Price\<newline>Foo,1'' = Inr []"
    using header_detection[of 0 "''Name,Price\<newline>Foo,1''" "[]" 0] none by blast
  show ?thesis
    using f first empty by (simp add: numeral_2_eq_2 less_Suc_eq)
qed

text \<open>
  C8. Each name of the header row comes from its token of the header line, of those
  the commas separate: the token trimmed, one leading and one trailing double quote
  stripped if present, every space replaced by an underscore. The quoted token
  \<^verbatim>\<open>"Current price"\<close> gives the name \<^verbatim>\<open>Current_price\<close>.
\<close>

theorem header_names:
  \<open>(find_header (split LF t) 0 = Inr (Some hs, k)
    \<longrightarrow> 0 \<le> k \<and> nat k < length (split LF t) \<and>
        hs = map normalize_header (split comma (split LF t ! nat k))) \<and>
   normalize_header ''"Current price"'' = ''Current_price''\<close>
proof (intro conjI impI)
  assume a: "find_header (split LF t) 0 = Inr (Some hs, k)"
  from find_header_SomeD[OF a] obtain m where m: "k = int m" "m < length (split LF t)"
    "hs = map normalize_header (split comma (split LF t ! m))"
    by blast
  show "0 \<le> k" using m by simp
  show "nat k < length (split LF t)" using m by simp
  show "hs = map normalize_header (split comma (split LF t ! nat k))" using m by simp
next
  show \<open>normalize_header ''"Current price"'' = ''Current_price''\<close>
    by code_simp
qed

theorem header_names_witness:
  \<open>find_header (split LF ''x\<newline> "Symbol" , "Stock name","Current price"\<newline>A,B,1'') 0 =
     Inr (Some [''Symbol'', ''Stock_name'', ''Current_price''], 1) \<and>
   [''Symbol'', ''Stock_name'', ''Current_price''] =
     map normalize_header
       (split comma (split LF ''x\<newline> "Symbol" , "Stock name","Current price"\<newline>A,B,1'' ! 1))\<close>
proof -
  let ?t = \<open>''x\<newline> "Symbol" , "Stock name","Current price"\<newline>A,B,1''\<close>
  have f: "find_header (split LF ?t) 0 =
             Inr (Some [''Symbol'', ''Stock_name'', ''Current_price''], 1)"
    by code_simp
  show ?thesis
    using header_names[of ?t "[''Symbol'', ''Stock_name'', ''Current_price'']" 1] f by simp
qed





text \<open>
  C3, as stated, fails: the header \<^verbatim>\<open>Symbol,Symbol\<close> has two entries and the record of
  the row \<^verbatim>\<open>A,B\<close> has one field, since the second column overwrites the first.
\<close>

theorem record_fields_counterexample:
  "find_header (split LF ''Symbol,Symbol\<newline>A,B'') 0 = Inr (Some [''Symbol'', ''Symbol''], 0) \<and>
   parseCsv ''Symbol,Symbol\<newline>A,B'' = Inr [[(''Symbol'', Str ''B'')]] \<and>
   length (remdups (map fst [(''Symbol'', Str ''B'')])) \<noteq> length [''Symbol'', ''Symbol'']"
  by code_simp

text \<open>
  C3, amended. When no name of the header row is \<^verbatim>\<open>__proto__\<close>, every record the
  parser returns has exactly one field for each distinct name of the header row: as many
  fields as the header row has entries when its names are distinct, fewer when a name
  repeats. Its \<^verbatim>\<open>Symbol\<close> field is a string that is not empty.
\<close>

theorem record_fields:
  assumes "find_header (split LF t) 0 = Inr (Some hs, k)"
    and "''__proto__'' \<notin> set hs"
    and "parseCsv t = Inr rs" and "r \<in> set rs"
  shows "fst ` set r = set hs \<and> distinct (map fst r) \<and>
         length r = card (set hs) \<and> length r \<le> length hs \<and>
         (distinct hs \<longrightarrow> length r = length hs) \<and>
         (\<not> distinct hs \<longrightarrow> length r < length hs) \<and>
         (\<exists>s. get_property r ''Symbol'' = Some (Str s) \<and> s \<noteq> [])"
proof -
  have keys: "fst ` set r = set hs" and dist: "distinct (map fst r)"
    using record_keys[OF assms(1,3,4)] assms(2) by simp_all
  have "card (set (map fst r)) = length (map fst r)"
    using dist by (rule distinct_card)
  then have n: "length r = card (set hs)"
    using keys by simp
  have le: "length r \<le> length hs"
    using n card_length[of hs] by simp
  have eq: "distinct hs \<longrightarrow> length r = length hs"
    using n by (simp add: distinct_card)
  have lt: "\<not> distinct hs \<longrightarrow> length r < length hs"
    using n le card_distinct[of hs] by (cases "length r = length hs") auto
  obtain l where l: "data_row hs l" and r: "r = convert_all hs (fields l) []"
    using parseCsv_record_of[OF assms(1,3,4)] by blast
  obtain s where "column_value hs (fields l) ''Symbol'' = Some s" "s \<noteq> []"
    using l by (auto simp add: data_row_def symbol_bearing_def split: option.splits)
  then have "get_property r ''Symbol'' = Some (Str s) \<and> s \<noteq> []"
    unfolding r get_convert_all_fields by (simp add: stored_value_def)
  then show ?thesis
    using keys dist n le eq lt by blast
qed

theorem record_fields_witness:
  "parseCsv ''Symbol,Name,Name\<newline>AAA,Foo,Bar'' =
     Inr [[(''Symbol'', Str ''AAA''), (''Name'', Str ''Bar'')]] \<and>
   fst ` set [(''Symbol'', Str ''AAA''), (''Name'', Str ''Bar'')] =
     set [''Symbol'', ''Name'', ''Name''] \<and>
   length [(''Symbol'', Str ''AAA''), (''Name'', Str ''Bar'')] <
     length [''Symbol'', ''Name'', ''Name''] \<and>
   (\<exists>s. get_property [(''Symbol'', Str ''AAA''), (''Name'', Str ''Bar'')] ''Symbol'' =
          Some (Str s) \<and> s \<noteq> []) \<and>
   parseCsv ''Symbol,Name\<newline>AAA,Foo'' =
     Inr [[(''Symbol'', Str ''AAA''), (''Name'', Str ''Foo'')]] \<and>
   length [(''Symbol'', Str ''AAA''), (''Name'', Str ''Foo'')] = length [''Symbol'', ''Name'']"
proof -
  let ?t = "''Symbol,Name,Name\<newline>AAA,Foo,Bar''"
  let ?hs = "[''Symbol'', ''Name'', ''Name'']"
  let ?r = "[(''Symbol'', Str ''AAA''), (''Name'', Str ''Bar'')]"
  have a1: "find_header (split LF ?t) 0 = Inr (Some ?hs, 0)"
    by code_simp
  have a2: "''__proto__'' \<notin> set ?hs"
    by simp
  have a3: "parseCsv ?t = Inr [?r]"
    by code_simp
  have a4: "?r \<in> set [?r]" by simp
  have a5: "\<not> distinct ?hs" by simp
  note first = record_fields[OF a1 a2 a3 a4]
  let ?t' = "''Symbol,Name\<newline>AAA,Foo''"
  let ?hs' = "[''Symbol'', ''Name'']"
  let ?r' = "[(''Symbol'', Str ''AAA''), (''Name'', Str ''Foo'')]"
  have b1: "find_header (split LF ?t') 0 = Inr (Some ?hs', 0)"
    by code_simp
  have b2: "''__proto__'' \<notin> set ?hs'"
    by simp
  have b3: "parseCsv ?t' = Inr [?r']"
    by code_simp
  have b4: "?r' \<in> set [?r']" by simp
  have b5: "distinct ?hs'" by simp
  note second = record_fields[OF b1 b2 b3 b4]
  from first a5 have "length ?r < length ?hs" by blast
  moreover from second b5 have "length ?r' = length ?hs'" by blast
  ultimately show ?thesis
    using first a3 b3 by blast
qed

text \<open>
  C2, as stated, fails for the column \<^verbatim>\<open>Percent_change\<close>: its text is parsed with
  its commas, so the number read from \<^verbatim>\<open>1,234.56\<close> ends at the comma and is 1.
\<close>

theorem numeric_fields_counterexample:
  \<open>parseCsv ''Symbol,Percent_change\<newline>AAA,"1,234.56"'' =
     Inr [[(''Symbol'', Str ''AAA''), (''Percent_change'', Num (Fin 1))]] \<and>
   fields ''AAA,"1,234.56"'' = [''AAA'', ''1,234.56''] \<and>
   or_zero (parseFloat (remove_commas ''1,234.56'')) = Fin (2714826150374277 / 2199023255552) \<and>
   Num (Fin 1) \<noteq> Num (or_zero (parseFloat (remove_commas ''1,234.56'')))\<close>
  by code_simp

text \<open>
  C2, amended. In every record the parser returns, the field of a column holds: for
  the names \<^verbatim>\<open>Current_price\<close>, \<^verbatim>\<open>Price_change\<close>, \<^verbatim>\<open>Liquidity\<close> and \<^verbatim>\<open>Volume\<close>,
  the number parsed from the text of the column without its commas; for the name
  \<^verbatim>\<open>Percent_change\<close>, the number parsed from the text as it is; zero where no number
  can be parsed; and the text itself for any other name. The text \<^verbatim>\<open>1,234.56\<close> gives
  the number 1234.56 in each of the first four columns, and 1 in \<^verbatim>\<open>Percent_change\<close>.
  A number too large for binary64, such as \<^verbatim>\<open>2e308\<close>, is parsed as the infinity.
\<close>

theorem numeric_fields:
  \<open>(find_header (split LF t) 0 = Inr (Some hs, k) \<and> parseCsv t = Inr rs \<and> r \<in> set rs
    \<longrightarrow> (\<exists>l \<in> set (drop (nat (k + 1)) (split LF t)).
           length (fields l) = length hs \<and>
           (\<forall>name. name \<noteq> ''__proto__'' \<longrightarrow>
              get_property r name =
                map_option (stored_value name) (column_value hs (fields l) name)))) \<and>
   (name = ''Current_price'' \<or> name = ''Price_change'' \<or> name = ''Liquidity'' \<or> name = ''Volume''
    \<longrightarrow> stored_value name txt = Num (or_zero (parseFloat (remove_commas txt))) \<and>
        stored_value name ''1,234.56'' = Num (Fin (2714826150374277 / 2199023255552))) \<and>
   stored_value ''Percent_change'' txt = Num (or_zero (parseFloat txt)) \<and>
   stored_value ''Percent_change'' ''1,234.56'' = Num (Fin 1) \<and>
   parseFloat ''1234.56'' = Fin (2714826150374277 / 2199023255552) \<and>
   (parseFloat txt = NaN \<longrightarrow> or_zero (parseFloat txt) = Fin 0) \<and>
   or_zero (parseFloat ''abc'') = Fin 0 \<and>
   or_zero (parseFloat ''2e308'') = PosInf\<close>
proof (intro conjI impI)
  assume a: "find_header (split LF t) 0 = Inr (Some hs, k) \<and> parseCsv t = Inr rs \<and> r \<in> set rs"
  then obtain l where l: "l \<in> set (drop (nat (k + 1)) (split LF t))" "data_row hs l"
    and r: "r = convert_all hs (fields l) []"
    using parseCsv_record_of by blast
  have "length (fields l) = length hs"
    using l by (simp add: data_row_def well_formed_def)
  moreover have "\<forall>name. name \<noteq> ''__proto__'' \<longrightarrow>
              get_property r name =
                map_option (stored_value name) (column_value hs (fields l) name)"
    unfolding r get_convert_all_fields by simp
  ultimately show "\<exists>l \<in> set (drop (nat (k + 1)) (split LF t)).
           length (fields l) = length hs \<and>
           (\<forall>name. name \<noteq> ''__proto__'' \<longrightarrow>
              get_property r name =
                map_option (stored_value name) (column_value hs (fields l) name))"
    using l by blast
next
  assume n: "name = ''Current_price'' \<or> name = ''Price_change'' \<or> name = ''Liquidity'' \<or> name = ''Volume''"
  then show "stored_value name txt = Num (or_zero (parseFloat (remove_commas txt)))"
    by (simp add: stored_value_def)
  have "or_zero (parseFloat (remove_commas ''1,234.56'')) = Fin (2714826150374277 / 2199023255552)"
    by code_simp
  then show "stored_value name ''1,234.56'' = Num (Fin (2714826150374277 / 2199023255552))"
    using n by (simp add: stored_value_def)
next
  show "stored_value ''Percent_change'' txt = Num (or_zero (parseFloat txt))"
    by (simp add: stored_value_def)
  show "stored_value ''Percent_change'' ''1,234.56'' = Num (Fin 1)"
    by code_simp
  show "parseFloat ''1234.56'' = Fin (2714826150374277 / 2199023255552)"
    by code_simp
  show "or_zero (parseFloat ''abc'') = Fin 0"
    by code_simp
  show "or_zero (parseFloat ''2e308'') = PosInf"
    by (simp add: parseFloat_2e308 or_zero_def)
next
  assume "parseFloat txt = NaN"
  then show "or_zero (parseFloat txt) = Fin 0"
    by (simp add: or_zero_def)
qed

theorem numeric_fields_witness:
  \<open>parseCsv ''Symbol,Current_price,Percent_change\<newline>AAA,"1,234.56","1,234.56"'' =
     Inr [[(''Symbol'', Str ''AAA''),
           (''Current_price'', Num (Fin (2714826150374277 / 2199023255552))),
           (''Percent_change'', Num (Fin 1))]] \<and>
   (\<exists>l. l \<in> set (drop (nat (0 + 1)) (split LF ''Symbol,Current_price,Percent_change\<newline>AAA,"1,234.56","1,234.56"'')) \<and>
        get_property
          [(''Symbol'', Str ''AAA''),
           (''Current_price'', Num (Fin (2714826150374277 / 2199023255552))),
           (''Percent_change'', Num (Fin 1))] ''Current_price'' =
        map_option (stored_value ''Current_price'')
          (column_value [''Symbol'', ''Current_price'', ''Percent_change''] (fields l)
             ''Current_price'')) \<and>
   stored_value ''Volume'' ''1,234.56'' = Num (Fin (2714826150374277 / 2199023255552)) \<and>
   or_zero (parseFloat '''') = Fin 0 \<and>
   parseCsv ''Symbol,Volume\<newline>A,2e308'' =
     Inr [[(''Symbol'', Str ''A''), (''Volume'', Num PosInf)]]\<close>
proof -
  let ?t = \<open>''Symbol,Current_price,Percent_change\<newline>AAA,"1,234.56","1,234.56"''\<close>
  let ?hs = "[''Symbol'', ''Current_price'', ''Percent_change'']"
  let ?r = "[(''Symbol'', Str ''AAA''),
           (''Current_price'', Num (Fin (2714826150374277 / 2199023255552))),
           (''Percent_change'', Num (Fin 1))]"
  have a1: "find_header (split LF ?t) 0 = Inr (Some ?hs, 0)"
    by code_simp
  have a2: "parseCsv ?t = Inr [?r]"
    by code_simp
  have a3: "?r \<in> set [?r]" by simp
  have a4: "parseFloat '''' = NaN" by code_simp
  have a5: "parseCsv ''Symbol,Volume\<newline>A,2e308'' =
              Inr [[(''Symbol'', Str ''A''), (''Volume'', Num PosInf)]]"
    by code_simp
  note n = numeric_fields[of ?t ?hs 0 "[?r]" ?r "''Volume''" "''''"]
  have h: "find_header (split LF ?t) 0 = Inr (Some ?hs, 0) \<and> parseCsv ?t = Inr [?r] \<and>
           ?r \<in> set [?r]"
    using a1 a2 a3 by (intro conjI)
  have "\<exists>l \<in> set (drop (nat (0 + 1)) (split LF ?t)).
           length (fields l) = length ?hs \<and>
           (\<forall>name. name \<noteq> ''__proto__'' \<longrightarrow>
              get_property ?r name =
                map_option (stored_value name) (column_value ?hs (fields l) name))"
    by (rule n[THEN conjunct1, THEN mp, OF h])
  then obtain l where l: "l \<in> set (drop (nat (0 + 1)) (split LF ?t))"
    and g: "\<forall>name. name \<noteq> ''__proto__'' \<longrightarrow>
              get_property ?r name =
                map_option (stored_value name) (column_value ?hs (fields l) name)"
    by blast
  have ne: "''Current_price'' \<noteq> ''__proto__''" by simp
  have c: "get_property ?r ''Current_price'' =
        map_option (stored_value ''Current_price'') (column_value ?hs (fields l) ''Current_price'')"
    by (rule g[rule_format, OF ne])
  have v: "''Volume'' = ''Current_price'' \<or> ''Volume'' = ''Price_change'' \<or>
           ''Volume'' = ''Liquidity'' \<or> ''Volume'' = ''Volume''"
    by simp
  have s: "stored_value ''Volume'' ''1,234.56'' = Num (Fin (2714826150374277 / 2199023255552))"
    by (rule n[THEN conjunct2, THEN conjunct1, THEN mp, OF v, THEN conjunct2])
  have z: "or_zero (parseFloat '''') = Fin 0"
    by (rule n[THEN conjunct2, THEN conjunct2, THEN conjunct2, THEN conjunct2, THEN conjunct2,
          THEN conjunct1, THEN mp, OF a4])
  have "\<exists>l. l \<in> set (drop (nat (0 + 1)) (split LF ?t)) \<and>
        get_property ?r ''Current_price'' =
        map_option (stored_value ''Current_price'') (column_value ?hs (fields l) ''Current_price'')"
    using l c by (intro exI conjI)
  then show ?thesis
    using a2 s z a5 by (intro conjI)
qed

end
